theory Spec2Isabelle
  imports Complex_Main
begin

section \<open>Data model\<close>

text \<open>
  The notebook works on two-dimensional numpy arrays of floats. An array value is modelled
  as the list of its rows. Its entries are modelled as real numbers, except for the maximum
  principle, which depends on rounding and overflow and is stated on arrays of binary64
  values. Arrays are objects: the variables
  \<^verbatim>\<open>U\<close> and \<^verbatim>\<open>U_new\<close> hold references, and the store maps a
  reference (an index into the list of allocated arrays) to the array's current contents.
\<close>

type_synonym ndarray = "real list list"

type_synonym ref = nat

type_synonym store = "ndarray list"

datatype error = ValueError

text \<open>
  \<^verbatim>\<open>U.shape\<close>. An array with no rows is given zero columns; nothing below reads
  a column count of such an array.
\<close>

definition shape :: "'a list list \<Rightarrow> nat \<times> nat" where
  "shape A = (length A, if A = [] then 0 else length (hd A))"

text \<open>Every row of a two-dimensional array has the same number of entries.\<close>

definition is_ndarray :: "'a list list \<Rightarrow> bool" where
  "is_ndarray A = list_all (\<lambda>row. length row = snd (shape A)) A"

text \<open>\<^verbatim>\<open>U.copy()\<close> allocates a new array with the contents of the old one.\<close>

definition np_copy :: "'a list list list \<Rightarrow> ref \<Rightarrow> ref \<times> 'a list list list" where
  "np_copy h U = (length h, h @ [h ! U])"

text \<open>\<^verbatim>\<open>U[i, j]\<close> and \<^verbatim>\<open>U[i, j] = v\<close> on the array that a reference points to.\<close>

definition getitem :: "'a list list list \<Rightarrow> ref \<Rightarrow> nat \<Rightarrow> nat \<Rightarrow> 'a" where
  "getitem h a i j = h ! a ! i ! j"

definition setitem :: "'a list list list \<Rightarrow> ref \<Rightarrow> nat \<Rightarrow> nat \<Rightarrow> 'a \<Rightarrow> 'a list list list" where
  "setitem h a i j v = h[a := (h ! a)[i := (h ! a ! i)[j := v]]]"

section \<open>One sweep\<close>

text \<open>
  \<^verbatim>\<open>
  def finite_difference(U, dx):
      Nx, Ny = U.shape
      U_new = U.copy()
      for i in range(1, Nx-1):
          for j in range(1, Ny-1):
              U_new[i, j] = (U[i+1, j] + U[i-1, j] + U[i, j+1] + U[i, j-1]) / 4
      return U_new
  \<close>
  Both loops run over \<^verbatim>\<open>range(1, n-1)\<close>, which is empty for \<open>n \<le> 2\<close>, as is
  \<open>[1..<n - 1]\<close> with truncating subtraction. Every read and write of the loop body goes
  through the store, at the reference held by \<^verbatim>\<open>U\<close> or \<^verbatim>\<open>U_new\<close>.
  The parameter \<^verbatim>\<open>dx\<close> is not used.
\<close>

definition finite_difference :: "store \<Rightarrow> ref \<Rightarrow> real \<Rightarrow> ref \<times> store" where
  "finite_difference h U dx =
     (let (Nx, Ny) = shape (h ! U);
          (U_new, h1) = np_copy h U
      in (U_new,
          fold (\<lambda>i h. fold (\<lambda>j h. setitem h U_new i j
                  ((getitem h U (i + 1) j + getitem h U (i - 1) j
                    + getitem h U i (j + 1) + getitem h U i (j - 1)) / 4))
                [1..<Ny - 1] h)
            [1..<Nx - 1] h1))"

section \<open>The iteration loop\<close>

text \<open>
  \<^verbatim>\<open>U - U_new\<close>, \<^verbatim>\<open>np.abs\<close> and \<^verbatim>\<open>np.max\<close>. The two operands
  of the subtraction always have the same shape here. \<^verbatim>\<open>np.max\<close> of an array
  without entries raises \<^verbatim>\<open>ValueError\<close>.
\<close>

definition np_subtract :: "ndarray \<Rightarrow> ndarray \<Rightarrow> ndarray" where
  "np_subtract A B = map2 (map2 (\<lambda>a b. a - b)) A B"

definition np_abs :: "ndarray \<Rightarrow> ndarray" where
  "np_abs A = map (map abs) A"

definition np_max :: "ndarray \<Rightarrow> error + real" where
  "np_max A = (case concat A of [] \<Rightarrow> Inl ValueError | x # xs \<Rightarrow> Inr (fold max xs x))"

text \<open>
  \<^verbatim>\<open>
  for i in range(max_iter):
          U_new = finite_difference(U, dx)
          if np.max(np.abs(U - U_new)) < tol:
              print('Converged at iteration', i)
              break
          U = U_new
  \<close>
  The state of the cell: the store, the variables \<^verbatim>\<open>U\<close>, \<^verbatim>\<open>U_new\<close>
  and \<^verbatim>\<open>i\<close> (the last two are unbound until the body has run once), and the
  index printed by the convergence message, if it was printed. The array the notebook
  goes on to plot is the one \<^verbatim>\<open>U\<close> refers to when the loop is left.
\<close>

record loop_state =
  heap :: store
  var_U :: ref
  var_U_new :: "ref option"
  var_i :: "nat option"
  printed :: "nat option"

fun for_loop :: "real \<Rightarrow> real \<Rightarrow> nat list \<Rightarrow> loop_state \<Rightarrow> error + loop_state" where
  "for_loop dx tol [] s = Inr s"
| "for_loop dx tol (k # ks) s =
     (let (r, h') = finite_difference (heap s) (var_U s) dx;
          s1 = s\<lparr>heap := h', var_U_new := Some r, var_i := Some k\<rparr>
      in case np_max (np_abs (np_subtract (h' ! var_U s) (h' ! r))) of
           Inl e \<Rightarrow> Inl e
         | Inr residual \<Rightarrow>
             if residual < tol then Inr (s1\<lparr>printed := Some k\<rparr>)
             else for_loop dx tol ks (s1\<lparr>var_U := r\<rparr>))"

text \<open>
  The cell, started with the array at \<open>U\<close> in store \<open>h\<close>. \<^verbatim>\<open>max_iter\<close> is a
  Python integer; \<^verbatim>\<open>range(max_iter)\<close> is empty when it is zero or negative.
\<close>

definition iteration_loop :: "store \<Rightarrow> ref \<Rightarrow> real \<Rightarrow> int \<Rightarrow> real \<Rightarrow> error + loop_state" where
  "iteration_loop h U dx max_iter tol =
     for_loop dx tol [0..<nat max_iter]
       \<lparr>heap = h, var_U = U, var_U_new = None, var_i = None, printed = None\<rparr>"

text \<open>
  \<open>n\<close> executions of the two assignments of the loop body,
  \<^verbatim>\<open>U_new = finite_difference(U, dx)\<close> and \<^verbatim>\<open>U = U_new\<close>: the
  reference and the store after \<open>n\<close> sweeps without a convergence test.
\<close>

fun sweeps :: "nat \<Rightarrow> store \<Rightarrow> ref \<Rightarrow> real \<Rightarrow> ref \<times> store" where
  "sweeps 0 h U dx = (U, h)"
| "sweeps (Suc n) h U dx =
     (let (U_new, h') = finite_difference h U dx in sweeps n h' U_new dx)"

text \<open>
  What can be observed of a finished run: whether the convergence message was printed, and
  how often the loop body ran (once for each index up to the last value of \<^verbatim>\<open>i\<close>).
\<close>

definition converged :: "loop_state \<Rightarrow> bool" where
  "converged s = (printed s \<noteq> None)"

definition sweeps_performed :: "loop_state \<Rightarrow> nat" where
  "sweeps_performed s = (case var_i s of None \<Rightarrow> 0 | Some k \<Rightarrow> Suc k)"

section \<open>The specification's formulas\<close>

text \<open>
  The update rule and the residual as the specification words them, on array contents.
  \<open>jacobi_spec A\<close> replaces every interior entry of \<open>A\<close> by the mean of its four neighbours
  in \<open>A\<close> and keeps every other entry; \<open>residual_spec old new\<close> is the largest absolute
  difference over all index pairs. The lemmas below relate both to the code.
\<close>

definition avg4 :: "ndarray \<Rightarrow> nat \<Rightarrow> nat \<Rightarrow> real" where
  "avg4 A i j = (A ! (i + 1) ! j + A ! (i - 1) ! j + A ! i ! (j + 1) + A ! i ! (j - 1)) / 4"

definition interior :: "nat \<times> nat \<Rightarrow> nat \<Rightarrow> nat \<Rightarrow> bool" where
  "interior sh i j = (1 \<le> i \<and> i + 1 < fst sh \<and> 1 \<le> j \<and> j + 1 < snd sh)"

definition jacobi_spec :: "ndarray \<Rightarrow> ndarray" where
  "jacobi_spec A = map (\<lambda>i. map (\<lambda>j. if interior (shape A) i j then avg4 A i j else A ! i ! j)
                          [0..<snd (shape A)]) [0..<fst (shape A)]"

definition residual_spec :: "ndarray \<Rightarrow> ndarray \<Rightarrow> real" where
  "residual_spec old new =
     Max ((\<lambda>(i, j). \<bar>new ! i ! j - old ! i ! j\<bar>) ` ({..<fst (shape old)} \<times> {..<snd (shape old)}))"

section \<open>Binary64 arithmetic\<close>

text \<open>
  The entries of the arrays are IEEE 754 binary64 numbers, and \<open>+\<close> and \<open>/\<close> round to
  nearest, ties to even. A finite binary64 value is an integer multiple of the spacing of
  its binade with a significand below \<open>2 ^ 53\<close>; the spacing is \<open>2 ^ (e - 52)\<close> for
  \<open>2 ^ e \<le> \<bar>x\<bar> < 2 ^ (e + 1)\<close> and never less than \<open>2 ^ - 1074\<close>, the smallest positive
  subnormal. \<open>halvings y\<close> counts how often \<open>y\<close> can be halved before it is below 2, so
  that with \<open>y = \<bar>x\<bar> / 2 ^ - 1022\<close> the spacing at \<open>x\<close> is \<open>2 ^ halvings y * 2 ^ - 1074\<close>.
\<close>

function halvings :: "real \<Rightarrow> nat" where
  "halvings y = (if y < 2 then 0 else Suc (halvings (y / 2)))"
  by pat_completeness auto
termination
proof (relation "measure (\<lambda>y. nat \<lceil>y\<rceil>)")
  show "wf (measure (\<lambda>y. nat \<lceil>y\<rceil>))" by simp
next
  fix y :: real
  assume "\<not> y < 2"
  then have "y / 2 \<le> y - 1" by simp
  then have "\<lceil>y / 2\<rceil> \<le> \<lceil>y - 1\<rceil>" by (rule ceiling_mono)
  moreover have "\<lceil>y - 1\<rceil> = \<lceil>y\<rceil> - 1" by simp
  moreover have "2 \<le> \<lceil>y\<rceil>" using \<open>\<not> y < 2\<close> by (simp add: le_ceiling_iff)
  ultimately show "(y / 2, y) \<in> measure (\<lambda>y. nat \<lceil>y\<rceil>)" by simp
qed

declare halvings.simps [simp del]

definition smallest_subnormal :: real where
  "smallest_subnormal = 1 / 2 ^ 1074"

definition spacing :: "real \<Rightarrow> real" where
  "spacing x = 2 ^ halvings (\<bar>x\<bar> / (2 ^ 52 * smallest_subnormal)) * smallest_subnormal"

text \<open>
  Rounding to an integer, ties to the even one, and rounding a real number to the nearest
  multiple of the spacing at it. The exponent is not bounded above here: overflow is
  decided on the rounded value, as the standard has it.
\<close>

definition round_half_even :: "real \<Rightarrow> int" where
  "round_half_even y =
     (let f = \<lfloor>y\<rfloor>; r = y - of_int f
      in if r < 1 / 2 then f else if 1 / 2 < r then f + 1 else if even f then f else f + 1)"

definition round_nearest :: "real \<Rightarrow> real" where
  "round_nearest x = of_int (round_half_even (x / spacing x)) * spacing x"

text \<open>
  Values, the largest finite one, overflow, and the two operations of the update rule.
  The two zeros are not told apart. Adding opposite infinities gives a NaN, and a NaN
  operand gives a NaN; comparisons with a NaN are false.
\<close>

datatype float64 = Finite real | PlusInf | MinusInf | NaN

definition max_float :: real where
  "max_float = (2 ^ 53 - 1) * 2 ^ 971"

definition to_float64 :: "real \<Rightarrow> float64" where
  "to_float64 x =
     (let y = round_nearest x
      in if max_float < y then PlusInf else if y < - max_float then MinusInf else Finite y)"

fun float_add :: "float64 \<Rightarrow> float64 \<Rightarrow> float64" where
  "float_add NaN y = NaN"
| "float_add x NaN = NaN"
| "float_add PlusInf MinusInf = NaN"
| "float_add MinusInf PlusInf = NaN"
| "float_add PlusInf y = PlusInf"
| "float_add x PlusInf = PlusInf"
| "float_add MinusInf y = MinusInf"
| "float_add x MinusInf = MinusInf"
| "float_add (Finite a) (Finite b) = to_float64 (a + b)"

fun float_div4 :: "float64 \<Rightarrow> float64" where
  "float_div4 (Finite a) = to_float64 (a / 4)"
| "float_div4 x = x"

fun float_le :: "float64 \<Rightarrow> float64 \<Rightarrow> bool" where
  "float_le NaN y = False"
| "float_le x NaN = False"
| "float_le MinusInf y = True"
| "float_le x PlusInf = True"
| "float_le (Finite a) (Finite b) = (a \<le> b)"
| "float_le x y = False"

fun float_value :: "float64 \<Rightarrow> real" where
  "float_value (Finite v) = v"
| "float_value x = 0"

fun is_finite_float64 :: "float64 \<Rightarrow> bool" where
  "is_finite_float64 (Finite v) = (round_nearest v = v \<and> \<bar>v\<bar> \<le> max_float)"
| "is_finite_float64 x = False"

text \<open>
  The sweep of section \<open>One sweep\<close> with binary64 entries: the same copy, loops, reads and
  writes, and the update \<open>(U[i+1, j] + U[i-1, j] + U[i, j+1] + U[i, j-1]) / 4\<close> evaluated
  from left to right in binary64. \<open>sweeps64 n\<close> is \<open>n\<close> such sweeps in a row.
\<close>

type_synonym ndarray64 = "float64 list list"

type_synonym store64 = "ndarray64 list"

definition finite_difference64 :: "store64 \<Rightarrow> ref \<Rightarrow> float64 \<Rightarrow> ref \<times> store64" where
  "finite_difference64 h U dx =
     (let (Nx, Ny) = shape (h ! U);
          (U_new, h1) = np_copy h U
      in (U_new,
          fold (\<lambda>i h. fold (\<lambda>j h. setitem h U_new i j
                  (float_div4
                    (float_add
                      (float_add (float_add (getitem h U (i + 1) j) (getitem h U (i - 1) j))
                         (getitem h U i (j + 1)))
                      (getitem h U i (j - 1)))))
                [1..<Ny - 1] h)
            [1..<Nx - 1] h1))"

fun sweeps64 :: "nat \<Rightarrow> store64 \<Rightarrow> ref \<Rightarrow> float64 \<Rightarrow> ref \<times> store64" where
  "sweeps64 0 h U dx = (U, h)"
| "sweeps64 (Suc n) h U dx =
     (let (U_new, h') = finite_difference64 h U dx in sweeps64 n h' U_new dx)"

text \<open>
  For the proofs: the contents a binary64 sweep leaves in the new array, the property that
  all entries are finite and lie in an interval, and the rounding of an integer significand
  of up to 55 bits to 53 bits.
\<close>

definition mean64 :: "ndarray64 \<Rightarrow> nat \<Rightarrow> nat \<Rightarrow> float64" where
  "mean64 A i j =
     float_div4
       (float_add (float_add (float_add (A ! (i + 1) ! j) (A ! (i - 1) ! j)) (A ! i ! (j + 1)))
          (A ! i ! (j - 1)))"

definition jacobi64 :: "ndarray64 \<Rightarrow> ndarray64" where
  "jacobi64 A = map (\<lambda>i. map (\<lambda>j. if interior (shape A) i j then mean64 A i j else A ! i ! j)
                          [0..<snd (shape A)]) [0..<fst (shape A)]"

definition finite_between :: "real \<Rightarrow> real \<Rightarrow> ndarray64 \<Rightarrow> bool" where
  "finite_between lo hi A =
     (\<forall>i<fst (shape A). \<forall>j<snd (shape A). \<exists>v. A ! i ! j = Finite v \<and> lo \<le> v \<and> v \<le> hi)"

definition shorten :: "int \<Rightarrow> int" where
  "shorten n =
     (if \<bar>n\<bar> < 2 ^ 53 then n
      else if \<bar>n\<bar> < 2 ^ 54 then 2 * round_half_even (of_int n / 2)
      else 4 * round_half_even (of_int n / 4))"

section \<open>Concrete fields\<close>

text \<open>
  The minimal grid of the specification's scenario (boundary 1, the single interior entry 0),
  the field it relaxes to, a grid without interior points, and a grid with four interior
  points.
\<close>

definition grid3 :: ndarray where
  "grid3 = [[1, 1, 1], [1, 0, 1], [1, 1, 1]]"

definition ones3 :: ndarray where
  "ones3 = [[1, 1, 1], [1, 1, 1], [1, 1, 1]]"

definition grid2 :: ndarray where
  "grid2 = [[1, 2], [3, 4]]"

definition grid4 :: ndarray where
  "grid4 = [[1, 2, 3, 4], [5, 6, 7, 8], [1, 3, 5, 7], [9, 9, 9, 9]]"

text \<open>
  The minimal grid with binary64 entries, and a 3 by 3 grid all of whose entries are the
  largest finite binary64 value.
\<close>

definition grid3_64 :: ndarray64 where
  "grid3_64 = [[Finite 1, Finite 1, Finite 1], [Finite 1, Finite 0, Finite 1],
               [Finite 1, Finite 1, Finite 1]]"

definition huge3 :: ndarray64 where
  "huge3 = [[Finite max_float, Finite max_float, Finite max_float],
            [Finite max_float, Finite max_float, Finite max_float],
            [Finite max_float, Finite max_float, Finite max_float]]"

section \<open>A sweep on the store and on array contents\<close>

text \<open>
  The copy is allocated at the first unused reference, so every write of the two loops
  lands in the last cell of the store while every read goes to an older cell.
\<close>

lemma setitem_fresh:
  "setitem (h @ [B]) (length h) i j v = h @ [B[i := (B ! i)[j := v]]]"
  by (simp add: setitem_def)

lemma getitem_old: "a < length h \<Longrightarrow> getitem (h @ [B]) a i j = h ! a ! i ! j"
  by (simp add: getitem_def nth_append)

lemma inner_store:
  assumes "U < length h"
  shows "fold (\<lambda>j h'. setitem h' (length h) i j
                  ((getitem h' U (i + 1) j + getitem h' U (i - 1) j
                    + getitem h' U i (j + 1) + getitem h' U i (j - 1)) / 4)) js (h @ [B])
         = h @ [fold (\<lambda>j B. B[i := (B ! i)[j := avg4 (h ! U) i j]]) js B]"
  using assms
  by (induction js arbitrary: B) (simp_all add: setitem_fresh getitem_old avg4_def)

lemma outer_store:
  assumes "U < length h"
  shows "fold (\<lambda>i h'. fold (\<lambda>j h'. setitem h' (length h) i j
                  ((getitem h' U (i + 1) j + getitem h' U (i - 1) j
                    + getitem h' U i (j + 1) + getitem h' U i (j - 1)) / 4)) js h') is (h @ [B])
         = h @ [fold (\<lambda>i B. fold (\<lambda>j B. B[i := (B ! i)[j := avg4 (h ! U) i j]]) js B) is B]"
proof (induction "is" arbitrary: B)
  case Nil
  show ?case by simp
next
  case (Cons i "is")
  show ?case
    by (simp only: fold_Cons comp_apply inner_store [OF assms] Cons.IH)
qed

lemma inner_length:
  "length (fold (\<lambda>j B. B[i := (B ! i)[j := f i j]]) js B) = length B"
  by (induction js arbitrary: B) simp_all

lemma inner_row_length:
  "length (fold (\<lambda>j B. B[i := (B ! i)[j := f i j]]) js B ! i') = length (B ! i')"
proof (induction js arbitrary: B)
  case Nil
  show ?case by simp
next
  case (Cons j js)
  show ?case
    by (simp add: Cons.IH) (metis length_list_update nth_list_update_eq nth_list_update_neq list_update_beyond not_le)
qed

lemma upd2_nth:
  assumes "i' < length B" "j' < length (B ! i')"
  shows "B[i := (B ! i)[j := v]] ! i' ! j' = (if i' = i \<and> j' = j then v else B ! i' ! j')"
proof (cases "i' = i")
  case True
  with assms show ?thesis by (simp add: nth_list_update)
next
  case False
  then show ?thesis by simp
qed

lemma inner_nth:
  assumes "i' < length B" "j' < length (B ! i')"
  shows "fold (\<lambda>j B. B[i := (B ! i)[j := f i j]]) js B ! i' ! j'
         = (if i' = i \<and> j' \<in> set js then f i j' else B ! i' ! j')"
  using assms
proof (induction js arbitrary: B)
  case Nil
  show ?case by simp
next
  case (Cons j js)
  let ?B = "B[i := (B ! i)[j := f i j]]"
  have len: "i' < length ?B" "j' < length (?B ! i')"
    using Cons.prems by (cases "i' = i"; simp)+
  have "fold (\<lambda>j B. B[i := (B ! i)[j := f i j]]) (j # js) B ! i' ! j'
        = (if i' = i \<and> j' \<in> set js then f i j' else ?B ! i' ! j')"
    using Cons.IH [OF len] by simp
  also have "\<dots> = (if i' = i \<and> j' \<in> set (j # js) then f i j' else B ! i' ! j')"
    using Cons.prems by (auto simp: upd2_nth)
  finally show ?case .
qed

lemma outer_length:
  "length (fold (\<lambda>i B. fold (\<lambda>j B. B[i := (B ! i)[j := f i j]]) js B) is B) = length B"
  by (induction "is" arbitrary: B) (simp_all add: inner_length)

lemma outer_row_length:
  "length (fold (\<lambda>i B. fold (\<lambda>j B. B[i := (B ! i)[j := f i j]]) js B) is B ! i')
   = length (B ! i')"
  by (induction "is" arbitrary: B) (simp_all add: inner_row_length)

lemma outer_nth:
  assumes "i' < length B" "j' < length (B ! i')"
  shows "fold (\<lambda>i B. fold (\<lambda>j B. B[i := (B ! i)[j := f i j]]) js B) is B ! i' ! j'
         = (if i' \<in> set is \<and> j' \<in> set js then f i' j' else B ! i' ! j')"
  using assms
proof (induction "is" arbitrary: B)
  case Nil
  show ?case by simp
next
  case (Cons i "is")
  let ?B = "fold (\<lambda>j B. B[i := (B ! i)[j := f i j]]) js B"
  have len: "i' < length ?B" "j' < length (?B ! i')"
    using Cons.prems by (simp_all add: inner_length inner_row_length)
  have "fold (\<lambda>i B. fold (\<lambda>j B. B[i := (B ! i)[j := f i j]]) js B) (i # is) B ! i' ! j'
        = (if i' \<in> set is \<and> j' \<in> set js then f i' j' else ?B ! i' ! j')"
    using Cons.IH [OF len] by simp
  also have "\<dots> = (if i' \<in> set (i # is) \<and> j' \<in> set js then f i' j' else B ! i' ! j')"
    using Cons.prems by (auto simp: inner_nth)
  finally show ?case .
qed

lemma is_ndarray_row: "is_ndarray A \<Longrightarrow> i < length A \<Longrightarrow> length (A ! i) = snd (shape A)"
  by (simp add: is_ndarray_def list_all_length)

lemma jacobi_pure:
  assumes "is_ndarray A"
  shows "fold (\<lambda>i B. fold (\<lambda>j B. B[i := (B ! i)[j := avg4 A i j]]) [1..<snd (shape A) - 1] B)
           [1..<fst (shape A) - 1] A = jacobi_spec A"
proof (rule nth_equalityI)
  show "length (fold (\<lambda>i B. fold (\<lambda>j B. B[i := (B ! i)[j := avg4 A i j]]) [1..<snd (shape A) - 1] B)
           [1..<fst (shape A) - 1] A) = length (jacobi_spec A)"
    by (simp add: outer_length jacobi_spec_def shape_def)
next
  fix i
  assume "i < length (fold (\<lambda>i B. fold (\<lambda>j B. B[i := (B ! i)[j := avg4 A i j]]) [1..<snd (shape A) - 1] B)
           [1..<fst (shape A) - 1] A)"
  then have i: "i < length A" by (simp add: outer_length)
  then have row: "length (A ! i) = snd (shape A)" using assms by (rule is_ndarray_row[rotated])
  show "fold (\<lambda>i B. fold (\<lambda>j B. B[i := (B ! i)[j := avg4 A i j]]) [1..<snd (shape A) - 1] B)
           [1..<fst (shape A) - 1] A ! i = jacobi_spec A ! i"
  proof (rule nth_equalityI)
    show "length (fold (\<lambda>i B. fold (\<lambda>j B. B[i := (B ! i)[j := avg4 A i j]]) [1..<snd (shape A) - 1] B)
           [1..<fst (shape A) - 1] A ! i) = length (jacobi_spec A ! i)"
      using i row by (simp add: outer_row_length jacobi_spec_def shape_def)
  next
    fix j
    assume "j < length (fold (\<lambda>i B. fold (\<lambda>j B. B[i := (B ! i)[j := avg4 A i j]]) [1..<snd (shape A) - 1] B)
           [1..<fst (shape A) - 1] A ! i)"
    then have j: "j < length (A ! i)" by (simp add: outer_row_length)
    have fstsh: "fst (shape A) = length A" by (simp add: shape_def)
    show "fold (\<lambda>i B. fold (\<lambda>j B. B[i := (B ! i)[j := avg4 A i j]]) [1..<snd (shape A) - 1] B)
           [1..<fst (shape A) - 1] A ! i ! j = jacobi_spec A ! i ! j"
      using i j row by (auto simp: outer_nth [OF i j] jacobi_spec_def interior_def fstsh)
  qed
qed

lemma finite_difference_eq:
  assumes "U < length h" "is_ndarray (h ! U)"
  shows "finite_difference h U dx = (length h, h @ [jacobi_spec (h ! U)])"
proof -
  obtain Nx Ny where sh: "shape (h ! U) = (Nx, Ny)" by (cases "shape (h ! U)")
  have "finite_difference h U dx
        = (length h, h @ [fold (\<lambda>i B. fold (\<lambda>j B. B[i := (B ! i)[j := avg4 (h ! U) i j]]) [1..<Ny - 1] B)
                             [1..<Nx - 1] (h ! U)])"
    by (simp only: finite_difference_def sh np_copy_def Let_def prod.case outer_store [OF assms(1)])
  also have "\<dots> = (length h, h @ [jacobi_spec (h ! U)])"
    using jacobi_pure [OF assms(2)] by (simp add: sh)
  finally show ?thesis .
qed

section \<open>Properties of the specification's formulas\<close>

text \<open>
  The swept array has the shape of its argument, and the residual that the loop computes
  with \<open>np_max\<close>, \<open>np_abs\<close> and \<open>np_subtract\<close> is \<open>residual_spec\<close>.
\<close>

lemma shape_fst: "fst (shape A) = length A"
  by (simp add: shape_def)

lemma jacobi_length: "length (jacobi_spec A) = length A"
  by (simp add: jacobi_spec_def shape_def)

lemma jacobi_row_length: "i < length A \<Longrightarrow> length (jacobi_spec A ! i) = snd (shape A)"
  by (simp add: jacobi_spec_def shape_fst)

lemma jacobi_shape: "shape (jacobi_spec A) = shape A"
proof (cases "A = []")
  case True
  then show ?thesis by (simp add: jacobi_spec_def shape_def)
next
  case False
  then have pos: "0 < length A" by simp
  have "jacobi_spec A \<noteq> []" using False jacobi_length [of A] by auto
  moreover have "hd (jacobi_spec A) = jacobi_spec A ! 0"
    using \<open>jacobi_spec A \<noteq> []\<close> by (simp add: hd_conv_nth)
  ultimately show ?thesis
    using jacobi_row_length [OF pos] False by (simp add: shape_def jacobi_length)
qed

lemma jacobi_is_ndarray: "is_ndarray (jacobi_spec A)"
  by (simp add: is_ndarray_def list_all_length jacobi_shape jacobi_length jacobi_row_length)

lemma jacobi_nth:
  assumes "i < fst (shape A)" "j < snd (shape A)"
  shows "jacobi_spec A ! i ! j = (if interior (shape A) i j then avg4 A i j else A ! i ! j)"
  using assms by (simp add: jacobi_spec_def)

lemma abs_diff_grid:
  assumes "is_ndarray A" "is_ndarray B" "shape B = shape A"
  shows "np_abs (np_subtract A B)
         = map (\<lambda>i. map (\<lambda>j. \<bar>B ! i ! j - A ! i ! j\<bar>) [0..<snd (shape A)]) [0..<fst (shape A)]"
proof -
  have lenB: "length B = length A" using assms(3) by (simp add: shape_def)
  have rowA: "\<And>i. i < length A \<Longrightarrow> length (A ! i) = snd (shape A)"
    using assms(1) by (simp add: is_ndarray_row)
  have rowB: "\<And>i. i < length A \<Longrightarrow> length (B ! i) = snd (shape A)"
    using assms(2,3) lenB by (simp add: is_ndarray_row)
  show ?thesis
  proof (rule nth_equalityI)
    show "length (np_abs (np_subtract A B))
          = length (map (\<lambda>i. map (\<lambda>j. \<bar>B ! i ! j - A ! i ! j\<bar>) [0..<snd (shape A)]) [0..<fst (shape A)])"
      by (simp add: np_abs_def np_subtract_def lenB shape_fst)
  next
    fix i
    assume "i < length (np_abs (np_subtract A B))"
    then have i: "i < length A" by (simp add: np_abs_def np_subtract_def lenB)
    show "np_abs (np_subtract A B) ! i
          = map (\<lambda>i. map (\<lambda>j. \<bar>B ! i ! j - A ! i ! j\<bar>) [0..<snd (shape A)]) [0..<fst (shape A)] ! i"
    proof (rule nth_equalityI)
      show "length (np_abs (np_subtract A B) ! i)
            = length (map (\<lambda>i. map (\<lambda>j. \<bar>B ! i ! j - A ! i ! j\<bar>) [0..<snd (shape A)]) [0..<fst (shape A)] ! i)"
        using i by (simp add: np_abs_def np_subtract_def lenB shape_fst rowA rowB)
    next
      fix j
      assume "j < length (np_abs (np_subtract A B) ! i)"
      then have j: "j < snd (shape A)"
        using i by (simp add: np_abs_def np_subtract_def lenB rowA rowB)
      show "np_abs (np_subtract A B) ! i ! j
            = map (\<lambda>i. map (\<lambda>j. \<bar>B ! i ! j - A ! i ! j\<bar>) [0..<snd (shape A)]) [0..<fst (shape A)] ! i ! j"
        using i j by (simp add: np_abs_def np_subtract_def lenB shape_fst rowA rowB abs_minus_commute)
    qed
  qed
qed

lemma np_max_grid:
  assumes "0 < Nx" "0 < Ny"
  shows "np_max (map (\<lambda>i. map (\<lambda>j. f i j) [0..<Ny]) [0..<Nx])
         = Inr (Max ((\<lambda>(i, j). f i j) ` ({..<Nx} \<times> {..<Ny})))"
proof -
  let ?xs = "concat (map (\<lambda>i. map (\<lambda>j. f i j) [0..<Ny]) [0..<Nx])"
  have set: "set ?xs = (\<lambda>(i, j). f i j) ` ({..<Nx} \<times> {..<Ny})"
    by (auto simp: image_iff) (metis atLeastLessThan_iff le0)
  have "f 0 0 \<in> set ?xs" using assms by (subst set) force
  then obtain x xs where xs: "?xs = x # xs" by (cases ?xs) auto
  have "np_max (map (\<lambda>i. map (\<lambda>j. f i j) [0..<Ny]) [0..<Nx]) = Inr (fold max xs x)"
    by (simp add: np_max_def xs)
  also have "fold max xs x = Max (set (x # xs))" by (rule Max.set_eq_fold [symmetric])
  also have "set (x # xs) = (\<lambda>(i, j). f i j) ` ({..<Nx} \<times> {..<Ny})"
    using set xs by simp
  finally show ?thesis .
qed

lemma np_max_residual:
  assumes "is_ndarray A" "is_ndarray B" "shape B = shape A"
    and "0 < fst (shape A)" "0 < snd (shape A)"
  shows "np_max (np_abs (np_subtract A B)) = Inr (residual_spec A B)"
  by (simp only: abs_diff_grid [OF assms(1-3)] np_max_grid [OF assms(4,5)] residual_spec_def)

lemma np_max_empty:
  assumes "is_ndarray A" "is_ndarray B" "shape B = shape A"
    and "fst (shape A) = 0 \<or> snd (shape A) = 0"
  shows "np_max (np_abs (np_subtract A B)) = Inl ValueError"
proof -
  have "concat (map (\<lambda>i. map (\<lambda>j. \<bar>B ! i ! j - A ! i ! j\<bar>) [0..<snd (shape A)]) [0..<fst (shape A)]) = []"
    using assms(4) by auto
  then show ?thesis
    by (simp only: abs_diff_grid [OF assms(1-3)] np_max_def list.case)
qed

lemma residual_spec_nonneg:
  assumes "0 < fst (shape A)" "0 < snd (shape A)"
  shows "0 \<le> residual_spec A B"
proof -
  let ?S = "(\<lambda>(i, j). \<bar>B ! i ! j - A ! i ! j\<bar>) ` ({..<fst (shape A)} \<times> {..<snd (shape A)})"
  have fin: "finite ?S" by simp
  have mem: "\<bar>B ! 0 ! 0 - A ! 0 ! 0\<bar> \<in> ?S" using assms by force
  have "\<bar>B ! 0 ! 0 - A ! 0 ! 0\<bar> \<le> Max ?S" using fin mem by (rule Max_ge)
  then show ?thesis by (simp add: residual_spec_def)
qed

lemma residual_spec_self:
  assumes "0 < fst (shape A)" "0 < snd (shape A)"
  shows "residual_spec A A = 0"
proof -
  have "(\<lambda>(i, j). \<bar>A ! i ! j - A ! i ! j\<bar>) ` ({..<fst (shape A)} \<times> {..<snd (shape A)}) = {0}"
    using assms by (auto simp: image_iff)
  then show ?thesis by (simp add: residual_spec_def)
qed

section \<open>Frame of a sweep\<close>

lemma finite_difference_store:
  assumes "U < length h"
  shows "\<exists>B. finite_difference h U dx = (length h, h @ [B])"
proof -
  obtain Nx Ny where sh: "shape (h ! U) = (Nx, Ny)" by (cases "shape (h ! U)")
  show ?thesis
    by (simp only: finite_difference_def sh np_copy_def Let_def prod.case
          outer_store [OF assms]) blast
qed

text \<open>
  Claim C10. A sweep never mutates its argument: when \<^verbatim>\<open>finite_difference(U, dx)\<close>
  returns, the array that \<open>U\<close> refers to has the contents it had before the call, and so has
  every other array that existed before the call; the returned reference is a new one,
  different from \<open>U\<close>.
\<close>

theorem finite_difference_frame:
  assumes "U < length h" and "finite_difference h U dx = (U_new, h')"
  shows "h' ! U = h ! U \<and> U_new \<noteq> U \<and> U_new = length h \<and> take (length h) h' = h"
proof -
  obtain B where "finite_difference h U dx = (length h, h @ [B])"
    using finite_difference_store [OF assms(1)] by blast
  with assms show ?thesis by (auto simp: nth_append)
qed

theorem finite_difference_frame_witness:
  "0 < length [grid4] \<and> finite_difference [grid4] 0 (1 / 3)
       = (1, [grid4, [[1, 2, 3, 4], [5, 17 / 4, 11 / 2, 8], [1, 21 / 4, 13 / 2, 7], [9, 9, 9, 9]]])
   \<and> [grid4, [[1, 2, 3, 4], [5, 17 / 4, 11 / 2, 8], [1, 21 / 4, 13 / 2, 7], [9, 9, 9, 9]]] ! 0
       = [grid4] ! 0
   \<and> (1::nat) \<noteq> 0"
proof -
  have run: "finite_difference [grid4] 0 (1 / 3)
      = (1, [grid4, [[1, 2, 3, 4], [5, 17 / 4, 11 / 2, 8], [1, 21 / 4, 13 / 2, 7], [9, 9, 9, 9]]])"
    by (simp add: finite_difference_def grid4_def shape_def np_copy_def setitem_def getitem_def)
  have valid: "0 < length [grid4]" by simp
  show ?thesis
    using finite_difference_frame [OF valid run] run by simp
qed

section \<open>The update rule\<close>

text \<open>
  Claim C1. One sweep maps the field \<open>old\<close> (the array at \<open>U\<close> in the store before the call)
  to the field \<open>new\<close> (the array at the returned reference in the store after the call) such
  that for every interior point \<open>1 \<le> i \<le> Nx - 2\<close>, \<open>1 \<le> j \<le> Ny - 2\<close> the new entry is the
  mean of the four neighbours in \<open>old\<close>: all four reads are of the field as it was before
  the sweep.
\<close>

theorem finite_difference_interior:
  assumes "U < length h" and "is_ndarray (h ! U)" and "shape (h ! U) = (Nx, Ny)"
    and "finite_difference h U dx = (U_new, h')"
  shows "\<forall>i j. 1 \<le> i \<and> i \<le> Nx - 2 \<and> 1 \<le> j \<and> j \<le> Ny - 2 \<longrightarrow>
           getitem h' U_new i j
           = (getitem h U (i + 1) j + getitem h U (i - 1) j
              + getitem h U i (j + 1) + getitem h U i (j - 1)) / 4"
proof (intro allI impI)
  fix i j
  assume ij: "1 \<le> i \<and> i \<le> Nx - 2 \<and> 1 \<le> j \<and> j \<le> Ny - 2"
  have res: "U_new = length h" "h' = h @ [jacobi_spec (h ! U)]"
    using finite_difference_eq [OF assms(1,2), of dx] assms(4) by simp_all
  have inner: "interior (shape (h ! U)) i j"
    using ij by (auto simp: interior_def assms(3))
  have "getitem h' U_new i j = jacobi_spec (h ! U) ! i ! j"
    by (simp add: res getitem_def)
  also have "\<dots> = avg4 (h ! U) i j"
    using inner by (simp add: jacobi_nth interior_def)
  finally show "getitem h' U_new i j
           = (getitem h U (i + 1) j + getitem h U (i - 1) j
              + getitem h U i (j + 1) + getitem h U i (j - 1)) / 4"
    by (simp add: avg4_def getitem_def)
qed

theorem finite_difference_interior_witness:
  "0 < length [grid4] \<and> is_ndarray ([grid4] ! 0) \<and> shape ([grid4] ! 0) = (4, 4)
   \<and> (1::nat) \<le> 2 \<and> (2::nat) \<le> 4 - 2 \<and> (1::nat) \<le> 1 \<and> (1::nat) \<le> 4 - 2
   \<and> getitem (snd (finite_difference [grid4] 0 (1 / 3))) (fst (finite_difference [grid4] 0 (1 / 3))) 2 1
       = (9 + 6 + 5 + 1) / 4"
proof -
  have valid: "0 < length [grid4]" by simp
  have arr: "is_ndarray ([grid4] ! 0)" by (simp add: is_ndarray_def grid4_def shape_def)
  have sh: "shape ([grid4] ! 0) = (4, 4)" by (simp add: grid4_def shape_def)
  have run: "finite_difference [grid4] 0 (1 / 3)
      = (fst (finite_difference [grid4] 0 (1 / 3)), snd (finite_difference [grid4] 0 (1 / 3)))"
    by simp
  have "getitem (snd (finite_difference [grid4] 0 (1 / 3))) (fst (finite_difference [grid4] 0 (1 / 3))) 2 1
        = (getitem [grid4] 0 (2 + 1) 1 + getitem [grid4] 0 (2 - 1) 1
           + getitem [grid4] 0 2 (1 + 1) + getitem [grid4] 0 2 (1 - 1)) / 4"
    using finite_difference_interior [OF valid arr sh run] by simp
  also have "\<dots> = (9 + 6 + 5 + 1) / 4"
    by (simp add: getitem_def grid4_def)
  finally show ?thesis using valid arr sh by simp
qed

section \<open>Several sweeps and the loop\<close>

text \<open>
  On a valid reference to a two-dimensional array, \<open>n\<close> sweeps leave the \<open>n\<close>-fold
  update of its contents at the returned reference, and one iteration of the loop either
  stops or goes on with the swept array.
\<close>

lemma jacobi_funpow_shape: "shape ((jacobi_spec ^^ n) A) = shape A"
  by (induction n) (simp_all add: jacobi_shape)

lemma jacobi_funpow_is_ndarray: "is_ndarray A \<Longrightarrow> is_ndarray ((jacobi_spec ^^ n) A)"
  by (cases n) (simp_all add: jacobi_is_ndarray)

lemma sweeps_content:
  assumes "U < length h" and "is_ndarray (h ! U)" and "sweeps n h U dx = (r, h')"
  shows "r < length h' \<and> h' ! r = (jacobi_spec ^^ n) (h ! U) \<and> take (length h) h' = h"
  using assms
proof (induction n arbitrary: h U)
  case 0
  then show ?case by simp
next
  case (Suc n)
  let ?h1 = "h @ [jacobi_spec (h ! U)]"
  have step: "sweeps n ?h1 (length h) dx = (r, h')"
    using Suc.prems(3) finite_difference_eq [OF Suc.prems(1,2), of dx] by simp
  have "length h < length ?h1" by simp
  moreover have "is_ndarray (?h1 ! length h)" by (simp add: jacobi_is_ndarray)
  ultimately have ih: "r < length h' \<and> h' ! r = (jacobi_spec ^^ n) (?h1 ! length h)
      \<and> take (length ?h1) h' = ?h1"
    using step by (rule Suc.IH)
  have "take (length h) (take (length ?h1) h') = h"
    using ih by simp
  then have "take (length h) h' = h" by (simp add: min_def)
  then show ?case using ih by (simp add: funpow_swap1)
qed

lemma for_loop_step:
  assumes "var_U s < length (heap s)" and "is_ndarray (heap s ! var_U s)"
    and "0 < fst (shape (heap s ! var_U s))" and "0 < snd (shape (heap s ! var_U s))"
  shows "for_loop dx tol (k # ks) s =
     (if residual_spec (heap s ! var_U s) (jacobi_spec (heap s ! var_U s)) < tol
      then Inr (s\<lparr>heap := heap s @ [jacobi_spec (heap s ! var_U s)],
                  var_U_new := Some (length (heap s)), var_i := Some k, printed := Some k\<rparr>)
      else for_loop dx tol ks
             (s\<lparr>heap := heap s @ [jacobi_spec (heap s ! var_U s)],
                var_U_new := Some (length (heap s)), var_i := Some k, var_U := length (heap s)\<rparr>))"
proof -
  let ?A = "heap s ! var_U s"
  have res: "np_max (np_abs (np_subtract ?A (jacobi_spec ?A))) = Inr (residual_spec ?A (jacobi_spec ?A))"
    using assms by (intro np_max_residual) (simp_all add: jacobi_is_ndarray jacobi_shape)
  show ?thesis
    using assms(1) res
    by (simp add: finite_difference_eq [OF assms(1,2)] nth_append)
qed

lemma for_loop_empty:
  assumes "var_U s < length (heap s)" and "is_ndarray (heap s ! var_U s)"
    and "fst (shape (heap s ! var_U s)) = 0 \<or> snd (shape (heap s ! var_U s)) = 0"
  shows "for_loop dx tol (k # ks) s = Inl ValueError"
proof -
  let ?A = "heap s ! var_U s"
  have res: "np_max (np_abs (np_subtract ?A (jacobi_spec ?A))) = Inl ValueError"
    using assms by (intro np_max_empty) (simp_all add: jacobi_is_ndarray jacobi_shape)
  show ?thesis
    using assms(1) res
    by (simp add: finite_difference_eq [OF assms(1,2)] nth_append)
qed

lemma for_loop_field:
  assumes "var_U s < length (heap s)" and "is_ndarray (heap s ! var_U s)"
    and "for_loop dx tol ks s = Inr s'"
  shows "\<exists>n\<le>length ks. var_U s' < length (heap s')
           \<and> heap s' ! var_U s' = (jacobi_spec ^^ n) (heap s ! var_U s)"
  using assms
proof (induction ks arbitrary: s)
  case Nil
  then show ?case by simp
next
  case (Cons k ks)
  let ?A = "heap s ! var_U s"
  show ?case
  proof (cases "fst (shape ?A) = 0 \<or> snd (shape ?A) = 0")
    case True
    then show ?thesis
      using for_loop_empty [OF Cons.prems(1,2) True] Cons.prems(3) by simp
  next
    case False
    then have pos: "0 < fst (shape ?A)" "0 < snd (shape ?A)" by simp_all
    note step = for_loop_step [OF Cons.prems(1,2) pos, of dx tol k ks]
    show ?thesis
    proof (cases "residual_spec ?A (jacobi_spec ?A) < tol")
      case True
      then have "s' = s\<lparr>heap := heap s @ [jacobi_spec ?A],
                  var_U_new := Some (length (heap s)), var_i := Some k, printed := Some k\<rparr>"
        using step Cons.prems(3) by simp
      then have "var_U s' < length (heap s') \<and> heap s' ! var_U s' = (jacobi_spec ^^ 0) ?A"
        using Cons.prems(1) by (simp add: nth_append)
      then show ?thesis by blast
    next
      case False
      let ?s1 = "s\<lparr>heap := heap s @ [jacobi_spec ?A],
                var_U_new := Some (length (heap s)), var_i := Some k, var_U := length (heap s)\<rparr>"
      have run: "for_loop dx tol ks ?s1 = Inr s'"
        using step Cons.prems(3) False by simp
      have v1: "var_U ?s1 < length (heap ?s1)" by simp
      have v2: "is_ndarray (heap ?s1 ! var_U ?s1)" by (simp add: jacobi_is_ndarray)
      obtain n where n: "n \<le> length ks" "var_U s' < length (heap s')"
        "heap s' ! var_U s' = (jacobi_spec ^^ n) (heap ?s1 ! var_U ?s1)"
        using Cons.IH [OF v1 v2 run] by blast
      have "heap s' ! var_U s' = (jacobi_spec ^^ Suc n) ?A"
        using n(3) by (simp add: funpow_swap1)
      then show ?thesis using n(1,2) by (intro exI [of _ "Suc n"]) simp
    qed
  qed
qed

lemma jacobi_boundary:
  assumes "i < fst (shape A)" "j < snd (shape A)" "\<not> interior (shape A) i j"
  shows "jacobi_spec A ! i ! j = A ! i ! j"
  using assms by (simp add: jacobi_nth)

lemma jacobi_funpow_boundary:
  assumes "i < fst (shape A)" "j < snd (shape A)" "\<not> interior (shape A) i j"
  shows "(jacobi_spec ^^ n) A ! i ! j = A ! i ! j"
proof (induction n)
  case 0
  show ?case by simp
next
  case (Suc n)
  have "(jacobi_spec ^^ Suc n) A ! i ! j = jacobi_spec ((jacobi_spec ^^ n) A) ! i ! j" by simp
  also have "\<dots> = (jacobi_spec ^^ n) A ! i ! j"
    using assms by (intro jacobi_boundary) (simp_all add: jacobi_funpow_shape)
  finally show ?case using Suc.IH by simp
qed

text \<open>The definitions to unfold when a run is evaluated on a concrete store.\<close>

lemmas run_defs = iteration_loop_def finite_difference_def shape_def np_copy_def setitem_def
  getitem_def np_max_def np_abs_def np_subtract_def upt_conv_Cons

lemma boundary_not_interior:
  assumes "shape A = (Nx, Ny)" "i = 0 \<or> i = Nx - 1 \<or> j = 0 \<or> j = Ny - 1"
  shows "\<not> interior (shape A) i j"
  using assms by (auto simp: interior_def)

lemma iteration_loop_field:
  assumes "U < length h" and "is_ndarray (h ! U)"
    and "iteration_loop h U dx max_iter tol = Inr s"
  shows "\<exists>n. var_U s < length (heap s) \<and> heap s ! var_U s = (jacobi_spec ^^ n) (h ! U)"
proof -
  let ?s0 = "\<lparr>heap = h, var_U = U, var_U_new = None, var_i = None, printed = None\<rparr>"
  have "var_U ?s0 < length (heap ?s0)" "is_ndarray (heap ?s0 ! var_U ?s0)"
    using assms(1,2) by simp_all
  moreover have "for_loop dx tol [0..<nat max_iter] ?s0 = Inr s"
    using assms(3) by (simp add: iteration_loop_def)
  ultimately have "\<exists>n\<le>length [0..<nat max_iter]. var_U s < length (heap s)
           \<and> heap s ! var_U s = (jacobi_spec ^^ n) (heap ?s0 ! var_U ?s0)"
    by (rule for_loop_field)
  then show ?thesis by auto
qed

section \<open>Boundary entries\<close>

text \<open>
  Claim C3. For every input field and every number of sweeps the boundary entries (row
  \<open>0\<close>, row \<open>Nx - 1\<close>, column \<open>0\<close>, column \<open>Ny - 1\<close>) of the field after the sweeps
  equal those of the initial field. This is shown for \<open>n\<close> sweeps in a row and for the
  field that \<^verbatim>\<open>U\<close> refers to after any run of the iteration loop.
\<close>

theorem boundary_fixed:
  assumes "U < length h" and "is_ndarray (h ! U)" and "shape (h ! U) = (Nx, Ny)"
  shows "(\<forall>n r h' i j. sweeps n h U dx = (r, h') \<and> i < Nx \<and> j < Ny
            \<and> (i = 0 \<or> i = Nx - 1 \<or> j = 0 \<or> j = Ny - 1)
          \<longrightarrow> getitem h' r i j = getitem h U i j)
       \<and> (\<forall>max_iter tol s i j. iteration_loop h U dx max_iter tol = Inr s \<and> i < Nx \<and> j < Ny
            \<and> (i = 0 \<or> i = Nx - 1 \<or> j = 0 \<or> j = Ny - 1)
          \<longrightarrow> getitem (heap s) (var_U s) i j = getitem h U i j)"
proof (intro conjI allI impI)
  fix n r h' i j
  assume a: "sweeps n h U dx = (r, h') \<and> i < Nx \<and> j < Ny
            \<and> (i = 0 \<or> i = Nx - 1 \<or> j = 0 \<or> j = Ny - 1)"
  then have "h' ! r = (jacobi_spec ^^ n) (h ! U)"
    using sweeps_content [OF assms(1,2)] by blast
  moreover have "\<not> interior (shape (h ! U)) i j"
    using a by (intro boundary_not_interior [OF assms(3)]) simp
  ultimately show "getitem h' r i j = getitem h U i j"
    using a assms(3) by (simp add: getitem_def jacobi_funpow_boundary)
next
  fix max_iter tol s i j
  assume a: "iteration_loop h U dx max_iter tol = Inr s \<and> i < Nx \<and> j < Ny
            \<and> (i = 0 \<or> i = Nx - 1 \<or> j = 0 \<or> j = Ny - 1)"
  then obtain n where "heap s ! var_U s = (jacobi_spec ^^ n) (h ! U)"
    using iteration_loop_field [OF assms(1,2)] by blast
  moreover have "\<not> interior (shape (h ! U)) i j"
    using a by (intro boundary_not_interior [OF assms(3)]) simp
  ultimately show "getitem (heap s) (var_U s) i j = getitem h U i j"
    using a assms(3) by (simp add: getitem_def jacobi_funpow_boundary)
qed

theorem boundary_fixed_witness:
  "0 < length [grid4] \<and> is_ndarray ([grid4] ! 0) \<and> shape ([grid4] ! 0) = (4, 4)
   \<and> getitem (snd (sweeps 2 [grid4] 0 (1 / 3))) (fst (sweeps 2 [grid4] 0 (1 / 3))) 3 1 = 9
   \<and> getitem (heap (projr (iteration_loop [grid4] 0 (1 / 3) 3 (1 / 2))))
        (var_U (projr (iteration_loop [grid4] 0 (1 / 3) 3 (1 / 2)))) 1 0 = 5"
proof -
  have valid: "0 < length [grid4]" by simp
  have arr: "is_ndarray ([grid4] ! 0)" by (simp add: is_ndarray_def grid4_def shape_def)
  have sh: "shape ([grid4] ! 0) = (4, 4)" by (simp add: grid4_def shape_def)
  have run: "iteration_loop [grid4] 0 (1 / 3) 3 (1 / 2)
      = Inr (projr (iteration_loop [grid4] 0 (1 / 3) 3 (1 / 2)))"
    by (simp add: run_defs grid4_def)
  note inst = boundary_fixed [OF valid arr sh, of "1 / 3"]
  have "getitem (snd (sweeps 2 [grid4] 0 (1 / 3))) (fst (sweeps 2 [grid4] 0 (1 / 3))) 3 1
        = getitem [grid4] 0 3 1"
    using inst by simp
  moreover have "getitem (heap (projr (iteration_loop [grid4] 0 (1 / 3) 3 (1 / 2))))
        (var_U (projr (iteration_loop [grid4] 0 (1 / 3) 3 (1 / 2)))) 1 0 = getitem [grid4] 0 1 0"
    using inst run by simp
  ultimately show ?thesis
    using valid arr sh by (simp add: getitem_def grid4_def)
qed

section \<open>Residual and convergence test\<close>

text \<open>
  Claim C6. After each sweep the loop computes the residual as the maximum over all points,
  boundary included, of the absolute difference between the new and the old field
  (\<open>residual_spec\<close>), and it stops with the convergence message exactly when the residual
  is strictly below the tolerance: a sweep whose residual equals the tolerance does not stop
  the loop. The field must have at least one entry for a residual to exist.
\<close>

theorem residual_strict_test:
  assumes "var_U s < length (heap s)" and "is_ndarray (heap s ! var_U s)"
    and "0 < fst (shape (heap s ! var_U s))" and "0 < snd (shape (heap s ! var_U s))"
    and "finite_difference (heap s) (var_U s) dx = (r, h')"
  shows "np_max (np_abs (np_subtract (h' ! var_U s) (h' ! r)))
           = Inr (residual_spec (heap s ! var_U s) (h' ! r))
       \<and> for_loop dx tol (k # ks) s
           = (if residual_spec (heap s ! var_U s) (h' ! r) < tol
              then Inr (s\<lparr>heap := h', var_U_new := Some r, var_i := Some k, printed := Some k\<rparr>)
              else for_loop dx tol ks
                     (s\<lparr>heap := h', var_U_new := Some r, var_i := Some k, var_U := r\<rparr>))
       \<and> (residual_spec (heap s ! var_U s) (h' ! r) = tol
            \<longrightarrow> for_loop dx tol (k # ks) s
                = for_loop dx tol ks
                    (s\<lparr>heap := h', var_U_new := Some r, var_i := Some k, var_U := r\<rparr>))"
proof -
  let ?A = "heap s ! var_U s"
  have res: "r = length (heap s)" "h' = heap s @ [jacobi_spec ?A]"
    using finite_difference_eq [OF assms(1,2), of dx] assms(5) by simp_all
  have old: "h' ! var_U s = ?A" and new: "h' ! r = jacobi_spec ?A"
    using assms(1) by (simp_all add: res nth_append)
  have "np_max (np_abs (np_subtract ?A (jacobi_spec ?A))) = Inr (residual_spec ?A (jacobi_spec ?A))"
    using assms(2-4) by (intro np_max_residual) (simp_all add: jacobi_is_ndarray jacobi_shape)
  moreover note for_loop_step [OF assms(1-4), of dx tol k ks]
  ultimately show ?thesis
    by (simp add: old new) (simp add: res)
qed

theorem residual_strict_test_witness:
  "residual_spec grid3 ones3 = 1
   \<and> np_max (np_abs (np_subtract grid3 ones3)) = Inr 1
   \<and> for_loop (1 / 2) 1 [0, 1]
        \<lparr>heap = [grid3], var_U = 0, var_U_new = None, var_i = None, printed = None\<rparr>
      = for_loop (1 / 2) 1 [1]
        \<lparr>heap = [grid3, ones3], var_U = 1, var_U_new = Some 1, var_i = Some 0, printed = None\<rparr>
   \<and> for_loop (1 / 2) 1 [1]
        \<lparr>heap = [grid3, ones3], var_U = 1, var_U_new = Some 1, var_i = Some 0, printed = None\<rparr>
      = Inr \<lparr>heap = [grid3, ones3, ones3], var_U = 1, var_U_new = Some 2, var_i = Some 1,
             printed = Some 1\<rparr>"
proof -
  let ?s = "\<lparr>heap = [grid3], var_U = 0, var_U_new = None, var_i = None, printed = None\<rparr>"
  have valid: "var_U ?s < length (heap ?s)" by simp
  have arr: "is_ndarray (heap ?s ! var_U ?s)" by (simp add: is_ndarray_def grid3_def shape_def)
  have nx: "0 < fst (shape (heap ?s ! var_U ?s))" by (simp add: grid3_def shape_def)
  have ny: "0 < snd (shape (heap ?s ! var_U ?s))" by (simp add: grid3_def shape_def)
  have run: "finite_difference (heap ?s) (var_U ?s) (1 / 2) = (1, [grid3, ones3])"
    by (simp add: run_defs grid3_def ones3_def)
  note inst = residual_strict_test [OF valid arr nx ny run, of 1 0 "[1]"]
  have mx: "np_max (np_abs (np_subtract grid3 ones3)) = Inr 1"
    by (simp add: run_defs grid3_def ones3_def)
  have rs: "residual_spec grid3 ones3 = 1"
    using inst mx by simp
  have step: "for_loop (1 / 2) 1 [0, 1] ?s
      = for_loop (1 / 2) 1 [1]
        \<lparr>heap = [grid3, ones3], var_U = 1, var_U_new = Some 1, var_i = Some 0, printed = None\<rparr>"
    using inst rs by simp
  have last: "for_loop (1 / 2) 1 [1]
        \<lparr>heap = [grid3, ones3], var_U = 1, var_U_new = Some 1, var_i = Some 0, printed = None\<rparr>
      = Inr \<lparr>heap = [grid3, ones3, ones3], var_U = 1, var_U_new = Some 2, var_i = Some 1,
             printed = Some 1\<rparr>"
    by (simp add: run_defs grid3_def ones3_def)
  show ?thesis using rs mx step last by simp
qed

section \<open>Running out of iterations\<close>

text \<open>
  Claim C8. With \<open>max_iter = 1\<close> and a tolerance below the residual of the first sweep the
  loop does not fail: it ends without the convergence message, having run its body once, and
  \<open>U\<close> refers to the field produced by one sweep of the initial field.
\<close>

theorem one_iteration_without_convergence:
  assumes "finite_difference h U dx = (U_new, h')"
    and "np_max (np_abs (np_subtract (h' ! U) (h' ! U_new))) = Inr residual"
    and "tol < residual"
  shows "iteration_loop h U dx 1 tol
           = Inr \<lparr>heap = h', var_U = U_new, var_U_new = Some U_new, var_i = Some 0, printed = None\<rparr>
       \<and> \<not> converged \<lparr>heap = h', var_U = U_new, var_U_new = Some U_new, var_i = Some 0,
                        printed = None\<rparr>
       \<and> sweeps_performed \<lparr>heap = h', var_U = U_new, var_U_new = Some U_new, var_i = Some 0,
                             printed = None\<rparr> = 1"
  using assms by (simp add: iteration_loop_def converged_def sweeps_performed_def)

theorem one_iteration_without_convergence_witness:
  "finite_difference [grid3] 0 (1 / 2) = (1, [grid3, ones3])
   \<and> np_max (np_abs (np_subtract ([grid3, ones3] ! 0) ([grid3, ones3] ! 1))) = Inr 1
   \<and> (1 / 100000 :: real) < 1
   \<and> iteration_loop [grid3] 0 (1 / 2) 1 (1 / 100000)
       = Inr \<lparr>heap = [grid3, ones3], var_U = 1, var_U_new = Some 1, var_i = Some 0, printed = None\<rparr>"
proof -
  have run: "finite_difference [grid3] 0 (1 / 2) = (1, [grid3, ones3])"
    by (simp add: run_defs grid3_def ones3_def)
  have mx: "np_max (np_abs (np_subtract ([grid3, ones3] ! 0) ([grid3, ones3] ! 1))) = Inr 1"
    by (simp add: run_defs grid3_def ones3_def)
  have below: "(1 / 100000 :: real) < 1" by simp
  show ?thesis
    using one_iteration_without_convergence [OF run mx below] run mx by simp
qed

section \<open>The minimal grid\<close>

text \<open>
  Claim C7. For the 3 by 3 grid with boundary 1 and interior 0, any tolerance
  \<open>0 < t < 1\<close> and \<open>max_iter \<ge> 2\<close>: after the first sweep the interior entry is exactly 1,
  the residual of the first sweep is 1 and that of the second is 0, and the loop stops with
  the convergence message at iteration 2, iterations being counted as sweeps performed. The
  message itself prints the loop variable, which counts from zero and is 1 in the second
  sweep.
\<close>

theorem minimal_grid_scenario:
  assumes "0 < t" and "t < 1" and "2 \<le> max_iter"
  shows "finite_difference [grid3] 0 dx = (1, [grid3, ones3])
       \<and> getitem [grid3, ones3] 1 1 1 = 1
       \<and> np_max (np_abs (np_subtract grid3 ones3)) = Inr 1
       \<and> finite_difference [grid3, ones3] 1 dx = (2, [grid3, ones3, ones3])
       \<and> np_max (np_abs (np_subtract ones3 ones3)) = Inr 0
       \<and> iteration_loop [grid3] 0 dx max_iter t
           = Inr \<lparr>heap = [grid3, ones3, ones3], var_U = 1, var_U_new = Some 2, var_i = Some 1,
                  printed = Some 1\<rparr>
       \<and> converged \<lparr>heap = [grid3, ones3, ones3], var_U = 1, var_U_new = Some 2, var_i = Some 1,
                  printed = Some 1\<rparr>
       \<and> sweeps_performed \<lparr>heap = [grid3, ones3, ones3], var_U = 1, var_U_new = Some 2,
                  var_i = Some 1, printed = Some 1\<rparr> = 2"
proof -
  have fd1: "finite_difference [grid3] 0 dx = (1, [grid3, ones3])"
    by (simp add: run_defs grid3_def ones3_def)
  have fd2: "finite_difference [grid3, ones3] 1 dx = (2, [grid3, ones3, ones3])"
    by (simp add: run_defs grid3_def ones3_def)
  have r1: "np_max (np_abs (np_subtract grid3 ones3)) = Inr 1"
    by (simp add: run_defs grid3_def ones3_def)
  have r2: "np_max (np_abs (np_subtract ones3 ones3)) = Inr 0"
    by (simp add: run_defs ones3_def)
  have "2 \<le> nat max_iter" using assms(3) by simp
  then have range: "[0..<nat max_iter] = 0 # 1 # [2..<nat max_iter]"
    by (simp add: upt_conv_Cons numeral_2_eq_2)
  have "iteration_loop [grid3] 0 dx max_iter t
           = Inr \<lparr>heap = [grid3, ones3, ones3], var_U = 1, var_U_new = Some 2, var_i = Some 1,
                  printed = Some 1\<rparr>"
    using assms(1,2) by (simp add: iteration_loop_def range fd1 fd2 [unfolded One_nat_def] r1 r2)
  then show ?thesis
    using fd1 fd2 r1 r2
    by (simp add: converged_def sweeps_performed_def getitem_def ones3_def)
qed

theorem minimal_grid_scenario_witness:
  "(0::real) < 1 / 100000 \<and> (1 / 100000 :: real) < 1 \<and> (2::int) \<le> 3000
   \<and> iteration_loop [grid3] 0 (1 / 2) 3000 (1 / 100000)
       = Inr \<lparr>heap = [grid3, ones3, ones3], var_U = 1, var_U_new = Some 2, var_i = Some 1,
              printed = Some 1\<rparr>"
proof -
  have a: "(0::real) < 1 / 100000" and b: "(1 / 100000 :: real) < 1" and c: "(2::int) \<le> 3000"
    by simp_all
  show ?thesis
    using minimal_grid_scenario [OF a b c, of "1 / 2"] a b c by simp
qed

section \<open>The field left at convergence\<close>

lemma for_loop_converged:
  assumes "for_loop dx tol [m..<n] s = Inr s'" and "printed s = None" and "printed s' = Some k"
  shows "m \<le> k \<and> k < n \<and>
     (case sweeps (k - m) (heap s) (var_U s) dx of (u, hk) \<Rightarrow>
        case finite_difference hk u dx of (r, h') \<Rightarrow>
          var_U s' = u \<and> var_U_new s' = Some r \<and> heap s' = h' \<and>
          (\<exists>res. np_max (np_abs (np_subtract (h' ! u) (h' ! r))) = Inr res \<and> res < tol))"
  using assms
proof (induction "n - m" arbitrary: m s)
  case 0
  then have "[m..<n] = []" by simp
  with "0.prems" show ?case by simp
next
  case (Suc d)
  then have mn: "m < n" by simp
  then have range: "[m..<n] = m # [Suc m..<n]" by (rule upt_conv_Cons)
  obtain r h' where fd: "finite_difference (heap s) (var_U s) dx = (r, h')"
    by (cases "finite_difference (heap s) (var_U s) dx")
  let ?s1 = "s\<lparr>heap := h', var_U_new := Some r, var_i := Some m\<rparr>"
  show ?case
  proof (cases "np_max (np_abs (np_subtract (h' ! var_U s) (h' ! r)))")
    case (Inl e)
    with Suc.prems(1) show ?thesis by (simp add: range fd)
  next
    case (Inr res)
    show ?thesis
    proof (cases "res < tol")
      case True
      then have "s' = ?s1\<lparr>printed := Some m\<rparr>"
        using Suc.prems(1) Inr by (simp add: range fd)
      then have "k = m" "var_U s' = var_U s" "var_U_new s' = Some r" "heap s' = h'"
        using Suc.prems(3) by simp_all
      then show ?thesis using mn fd Inr True by simp
    next
      case False
      let ?s2 = "?s1\<lparr>var_U := r\<rparr>"
      have run: "for_loop dx tol [Suc m..<n] ?s2 = Inr s'"
        using Suc.prems(1) Inr False by (simp add: range fd)
      have d: "d = n - Suc m" using Suc.hyps(2) by simp
      have none: "printed ?s2 = None" using Suc.prems(2) by simp
      note ih = Suc.hyps(1) [OF d run none Suc.prems(3)]
      then have k: "Suc m \<le> k" "k < n" by simp_all
      then have km: "k - m = Suc (k - Suc m)" by simp
      have "sweeps (k - m) (heap s) (var_U s) dx = sweeps (k - Suc m) (heap ?s2) (var_U ?s2) dx"
        by (simp add: km fd)
      then show ?thesis using ih k by simp
    qed
  qed
qed

text \<open>
  Claim C2, as the code has it. The loop is left by \<open>break\<close> before the assignment
  \<open>U = U_new\<close>. So when the convergence test fires at loop index \<open>k\<close>, the array that
  \<open>U\<close> refers to is the field after \<open>k\<close> sweeps, the input of the converging sweep, which
  that sweep did not change; the output of the converging sweep is a different array, held
  by \<open>U_new\<close>; and the two differ by less than the tolerance in the maximum norm.
\<close>

theorem convergence_keeps_pre_sweep_field:
  assumes "U < length h" and "is_ndarray (h ! U)"
    and "iteration_loop h U dx max_iter tol = Inr s" and "printed s = Some k"
  shows "int k < max_iter \<and>
     (case sweeps k h U dx of (u, hk) \<Rightarrow>
        case finite_difference hk u dx of (r, h') \<Rightarrow>
          var_U s = u \<and> heap s ! var_U s = hk ! u \<and> var_U_new s = Some r \<and> heap s = h'
          \<and> r \<noteq> u
          \<and> (\<exists>res. np_max (np_abs (np_subtract (heap s ! u) (heap s ! r))) = Inr res
                   \<and> res < tol))"
proof -
  let ?s0 = "\<lparr>heap = h, var_U = U, var_U_new = None, var_i = None, printed = None\<rparr>"
  obtain u hk where sw: "sweeps k h U dx = (u, hk)" by (cases "sweeps k h U dx")
  obtain r h' where fd: "finite_difference hk u dx = (r, h')"
    by (cases "finite_difference hk u dx")
  have run: "for_loop dx tol [0..<nat max_iter] ?s0 = Inr s"
    using assms(3) by (simp add: iteration_loop_def)
  have "0 \<le> k \<and> k < nat max_iter \<and>
     (case sweeps (k - 0) (heap ?s0) (var_U ?s0) dx of (u, hk) \<Rightarrow>
        case finite_difference hk u dx of (r, h') \<Rightarrow>
          var_U s = u \<and> var_U_new s = Some r \<and> heap s = h' \<and>
          (\<exists>res. np_max (np_abs (np_subtract (h' ! u) (h' ! r))) = Inr res \<and> res < tol))"
    using run _ assms(4) by (rule for_loop_converged) simp
  then have main: "k < nat max_iter" "var_U s = u" "var_U_new s = Some r" "heap s = h'"
    "\<exists>res. np_max (np_abs (np_subtract (h' ! u) (h' ! r))) = Inr res \<and> res < tol"
    by (simp_all add: sw fd)
  have u: "u < length hk" using sweeps_content [OF assms(1,2) sw] by simp
  have frame: "h' ! u = hk ! u" "r \<noteq> u"
    using finite_difference_store [OF u, of dx] fd u by (auto simp: nth_append)
  show ?thesis
    using main frame by (simp add: sw fd)
qed

theorem convergence_keeps_pre_sweep_field_witness:
  "0 < length [grid4] \<and> is_ndarray ([grid4] ! 0)
   \<and> iteration_loop [grid4] 0 (1 / 3) 3 (1 / 2)
       = Inr \<lparr>heap = [grid4, [[1, 2, 3, 4], [5, 17 / 4, 11 / 2, 8], [1, 21 / 4, 13 / 2, 7], [9, 9, 9, 9]],
                     [[1, 2, 3, 4], [5, 71 / 16, 87 / 16, 8], [1, 83 / 16, 107 / 16, 7], [9, 9, 9, 9]]],
              var_U = 1, var_U_new = Some 2, var_i = Some 1, printed = Some 1\<rparr>
   \<and> sweeps 1 [grid4] 0 (1 / 3)
       = (1, [grid4, [[1, 2, 3, 4], [5, 17 / 4, 11 / 2, 8], [1, 21 / 4, 13 / 2, 7], [9, 9, 9, 9]]])
   \<and> int 1 < 3
   \<and> finite_difference
         [grid4, [[1, 2, 3, 4], [5, 17 / 4, 11 / 2, 8], [1, 21 / 4, 13 / 2, 7], [9, 9, 9, 9]]] 1 (1 / 3)
       = (2, [grid4, [[1, 2, 3, 4], [5, 17 / 4, 11 / 2, 8], [1, 21 / 4, 13 / 2, 7], [9, 9, 9, 9]],
                     [[1, 2, 3, 4], [5, 71 / 16, 87 / 16, 8], [1, 83 / 16, 107 / 16, 7], [9, 9, 9, 9]]])
   \<and> (\<exists>res. np_max (np_abs (np_subtract
           [[1, 2, 3, 4], [5, 17 / 4, 11 / 2, 8], [1, 21 / 4, 13 / 2, 7], [9, 9, 9, 9]]
           [[1, 2, 3, 4], [5, 71 / 16, 87 / 16, 8], [1, 83 / 16, 107 / 16, 7], [9, 9, 9, 9]]))
           = Inr res \<and> res < 1 / 2)"
proof -
  let ?A1 = "[[1, 2, 3, 4], [5, 17 / 4, 11 / 2, 8], [1, 21 / 4, 13 / 2, 7], [9, 9, 9, 9 :: real]]"
  let ?A2 = "[[1, 2, 3, 4], [5, 71 / 16, 87 / 16, 8], [1, 83 / 16, 107 / 16, 7], [9, 9, 9, 9 :: real]]"
  let ?s = "\<lparr>heap = [grid4, ?A1, ?A2], var_U = 1, var_U_new = Some 2, var_i = Some 1,
             printed = Some 1\<rparr>"
  have valid: "0 < length [grid4]" by simp
  have arr: "is_ndarray ([grid4] ! 0)" by (simp add: is_ndarray_def grid4_def shape_def)
  have run: "iteration_loop [grid4] 0 (1 / 3) 3 (1 / 2) = Inr ?s"
    by (simp add: run_defs grid4_def)
  have pr: "printed ?s = Some 1" by simp
  have sw: "sweeps 1 [grid4] 0 (1 / 3) = (1, [grid4, ?A1])"
    by (simp add: run_defs grid4_def)
  have fd: "finite_difference [grid4, ?A1] 1 (1 / 3) = (2, [grid4, ?A1, ?A2])"
    by (simp add: run_defs grid4_def)
  have "int 1 < 3 \<and> (\<exists>res. np_max (np_abs (np_subtract ?A1 ?A2)) = Inr res \<and> res < 1 / 2)"
    using convergence_keeps_pre_sweep_field [OF valid arr run pr, unfolded sw prod.case fd]
    by simp
  then show ?thesis using valid arr run sw fd by simp
qed

text \<open>
  Claim C2 as stated says that the field left as the result is the output of the converging
  sweep. On the minimal grid with tolerance 2 the test fires in the first sweep; \<open>U\<close> still
  refers to the initial field, whose interior entry is 0, and not to the swept field, whose
  interior entry is 1.
\<close>

theorem convergence_result_counterexample:
  "iteration_loop [grid3] 0 (1 / 2) 1 2
     = Inr \<lparr>heap = [grid3, ones3], var_U = 0, var_U_new = Some 1, var_i = Some 0,
            printed = Some 0\<rparr>
   \<and> finite_difference [grid3] 0 (1 / 2) = (1, [grid3, ones3])
   \<and> [grid3, ones3] ! 0 \<noteq> [grid3, ones3] ! 1"
  by (simp add: run_defs grid3_def ones3_def)

section \<open>Fields without interior points\<close>

lemma jacobi_small:
  assumes "is_ndarray A" and "fst (shape A) < 3 \<or> snd (shape A) < 3"
  shows "jacobi_spec A = A"
proof (rule nth_equalityI)
  show "length (jacobi_spec A) = length A" by (rule jacobi_length)
next
  fix i
  assume "i < length (jacobi_spec A)"
  then have i: "i < length A" by (simp add: jacobi_length)
  have none: "\<And>j. \<not> interior (shape A) i j"
    using assms(2) by (auto simp: interior_def)
  have "jacobi_spec A ! i = map (\<lambda>j. A ! i ! j) [0..<snd (shape A)]"
    using i by (simp add: jacobi_spec_def shape_fst none)
  also have "\<dots> = map ((!) (A ! i)) [0..<length (A ! i)]"
    using is_ndarray_row [OF assms(1) i] by simp
  also have "\<dots> = A ! i" by (rule map_nth)
  finally show "jacobi_spec A ! i = A ! i" .
qed

text \<open>
  Claim C4, as the code has it. No dimension check is made. For a field with \<open>Nx < 3\<close> or
  \<open>Ny < 3\<close> a sweep returns an unchanged copy. If such a field has at least one entry,
  \<open>max_iter \<ge> 1\<close> and \<open>tol > 0\<close>, the loop runs one sweep, finds residual 0 and stops at
  loop index 0 with the convergence message. If it has no entry and \<open>max_iter \<ge> 1\<close>, the
  residual of the first sweep cannot be computed and \<open>np.max\<close> raises \<open>ValueError\<close>.
\<close>

theorem small_grid_not_rejected:
  assumes "U < length h" and "is_ndarray (h ! U)" and "shape (h ! U) = (Nx, Ny)"
    and "Nx < 3 \<or> Ny < 3"
  shows "finite_difference h U dx = (length h, h @ [h ! U])
       \<and> (0 < Nx \<and> 0 < Ny \<and> 0 < max_iter \<and> 0 < tol
            \<longrightarrow> iteration_loop h U dx max_iter tol
                = Inr \<lparr>heap = h @ [h ! U], var_U = U, var_U_new = Some (length h),
                       var_i = Some 0, printed = Some 0\<rparr>)
       \<and> ((Nx = 0 \<or> Ny = 0) \<and> 0 < max_iter
            \<longrightarrow> iteration_loop h U dx max_iter tol = Inl ValueError)"
proof -
  let ?A = "h ! U"
  let ?s0 = "\<lparr>heap = h, var_U = U, var_U_new = None, var_i = None, printed = None\<rparr>"
  have same: "jacobi_spec ?A = ?A"
    using assms(2,4) by (intro jacobi_small) (simp_all add: assms(3))
  have fd: "finite_difference h U dx = (length h, h @ [?A])"
    using finite_difference_eq [OF assms(1,2), of dx] by (simp add: same)
  have v1: "var_U ?s0 < length (heap ?s0)" and v2: "is_ndarray (heap ?s0 ! var_U ?s0)"
    using assms(1,2) by simp_all
  have range: "[0..<nat max_iter] = 0 # [1..<nat max_iter]" if "0 < max_iter"
    using that by (simp add: upt_conv_Cons)
  have conv: "iteration_loop h U dx max_iter tol
                = Inr \<lparr>heap = h @ [?A], var_U = U, var_U_new = Some (length h),
                       var_i = Some 0, printed = Some 0\<rparr>"
    if "0 < Nx \<and> 0 < Ny \<and> 0 < max_iter \<and> 0 < tol"
  proof -
    have pos: "0 < fst (shape (heap ?s0 ! var_U ?s0))" "0 < snd (shape (heap ?s0 ! var_U ?s0))"
      using that by (simp_all add: assms(3))
    have "residual_spec ?A ?A = 0"
      using that by (intro residual_spec_self) (simp_all add: assms(3))
    then show ?thesis
      using that for_loop_step [OF v1 v2 pos, of dx tol 0 "[1..<nat max_iter]"]
      by (simp add: iteration_loop_def range same)
  qed
  have err: "iteration_loop h U dx max_iter tol = Inl ValueError"
    if "(Nx = 0 \<or> Ny = 0) \<and> 0 < max_iter"
  proof -
    have "fst (shape (heap ?s0 ! var_U ?s0)) = 0 \<or> snd (shape (heap ?s0 ! var_U ?s0)) = 0"
      using that by (simp add: assms(3))
    then show ?thesis
      using that for_loop_empty [OF v1 v2, of dx tol 0 "[1..<nat max_iter]"]
      by (simp add: iteration_loop_def range)
  qed
  show ?thesis using fd conv err by blast
qed

theorem small_grid_not_rejected_witness:
  "0 < length [grid2] \<and> is_ndarray ([grid2] ! 0) \<and> shape ([grid2] ! 0) = (2, 2)
   \<and> ((2::nat) < 3 \<or> (2::nat) < 3)
   \<and> finite_difference [grid2] 0 1 = (1, [grid2, grid2])
   \<and> iteration_loop [grid2] 0 1 3000 (1 / 100000)
       = Inr \<lparr>heap = [grid2, grid2], var_U = 0, var_U_new = Some 1, var_i = Some 0,
              printed = Some 0\<rparr>
   \<and> 0 < length [[[], []]] \<and> is_ndarray ([[[], []]] ! 0) \<and> shape ([[[], []]] ! 0) = (2, 0)
   \<and> iteration_loop [[[], []]] 0 1 3000 (1 / 100000) = Inl ValueError"
proof -
  have valid: "0 < length [grid2]" by simp
  have arr: "is_ndarray ([grid2] ! 0)" by (simp add: is_ndarray_def grid2_def shape_def)
  have sh: "shape ([grid2] ! 0) = (2, 2)" by (simp add: grid2_def shape_def)
  have small: "(2::nat) < 3 \<or> (2::nat) < 3" by simp
  have valid': "0 < length [[[], []] :: ndarray]" by simp
  have arr': "is_ndarray ([[[], []]] ! 0)" by (simp add: is_ndarray_def shape_def)
  have sh': "shape ([[[], []]] ! 0) = (2, 0)" by (simp add: shape_def)
  have small': "(2::nat) < 3 \<or> (0::nat) < 3" by simp
  have "finite_difference [grid2] 0 1 = (1, [grid2, grid2])
        \<and> iteration_loop [grid2] 0 1 3000 (1 / 100000)
            = Inr \<lparr>heap = [grid2, grid2], var_U = 0, var_U_new = Some 1, var_i = Some 0,
                   printed = Some 0\<rparr>"
    using small_grid_not_rejected [OF valid arr sh small, of 1 3000 "1 / 100000"] by simp
  moreover have "iteration_loop [[[], []]] 0 1 3000 (1 / 100000) = Inl ValueError"
    using small_grid_not_rejected [OF valid' arr' sh' small', of 1 3000 "1 / 100000"] by simp
  ultimately show ?thesis
    using valid arr sh arr' sh' by simp
qed

text \<open>
  Claim C4 as stated says that a field with \<open>Nx < 3\<close> or \<open>Ny < 3\<close> is rejected before any
  sweep. A 2 by 2 field is swept once and the loop returns normally.
\<close>

theorem invalid_dimensions_counterexample:
  "shape grid2 = (2, 2)
   \<and> iteration_loop [grid2] 0 1 5 (1 / 100000)
       = Inr \<lparr>heap = [grid2, grid2], var_U = 0, var_U_new = Some 1, var_i = Some 0,
              printed = Some 0\<rparr>"
  by (simp add: run_defs grid2_def)

section \<open>Tolerance and iteration cap are not checked\<close>

lemma for_loop_never_converges:
  assumes "tol \<le> 0" and "var_U s < length (heap s)" and "is_ndarray (heap s ! var_U s)"
    and "0 < fst (shape (heap s ! var_U s))" and "0 < snd (shape (heap s ! var_U s))"
  shows "\<exists>s'. for_loop dx tol ks s = Inr s' \<and> printed s' = printed s
           \<and> (var_U s', heap s') = sweeps (length ks) (heap s) (var_U s) dx
           \<and> (ks \<noteq> [] \<longrightarrow> var_U_new s' = Some (var_U s') \<and> var_i s' = Some (last ks))"
  using assms(2-5)
proof (induction ks arbitrary: s)
  case Nil
  show ?case by simp
next
  case (Cons k ks)
  let ?A = "heap s ! var_U s"
  let ?s1 = "s\<lparr>heap := heap s @ [jacobi_spec ?A], var_U_new := Some (length (heap s)),
               var_i := Some k, var_U := length (heap s)\<rparr>"
  have "0 \<le> residual_spec ?A (jacobi_spec ?A)"
    using Cons.prems(3,4) by (rule residual_spec_nonneg)
  then have "\<not> residual_spec ?A (jacobi_spec ?A) < tol" using assms(1) by simp
  then have step: "for_loop dx tol (k # ks) s = for_loop dx tol ks ?s1"
    using for_loop_step [OF Cons.prems, of dx tol k ks] by simp
  have v1: "var_U ?s1 < length (heap ?s1)" by simp
  have v2: "is_ndarray (heap ?s1 ! var_U ?s1)" by (simp add: jacobi_is_ndarray)
  have v3: "0 < fst (shape (heap ?s1 ! var_U ?s1))" "0 < snd (shape (heap ?s1 ! var_U ?s1))"
    using Cons.prems(3,4) by (simp_all add: jacobi_shape)
  obtain s' where s': "for_loop dx tol ks ?s1 = Inr s'" "printed s' = printed ?s1"
    "(var_U s', heap s') = sweeps (length ks) (heap ?s1) (var_U ?s1) dx"
    "ks \<noteq> [] \<longrightarrow> var_U_new s' = Some (var_U s') \<and> var_i s' = Some (last ks)"
    using Cons.IH [OF v1 v2 v3] by blast
  have sw: "sweeps (length (k # ks)) (heap s) (var_U s) dx
            = sweeps (length ks) (heap ?s1) (var_U ?s1) dx"
    using finite_difference_eq [OF Cons.prems(1,2), of dx] by simp
  have last: "var_U_new s' = Some (var_U s') \<and> var_i s' = Some (last (k # ks))"
  proof (cases "ks = []")
    case True
    then have "s' = ?s1" using s'(1) by simp
    then show ?thesis using True by simp
  next
    case False
    then show ?thesis using s'(4) by simp
  qed
  show ?case
    using step s'(1,2,3) sw last by (intro exI [of _ s']) simp
qed

text \<open>
  Claim C5, as the code has it. No parameter check is made. With \<open>max_iter \<le> 0\<close> the loop
  body never runs and the state is left as it was. With \<open>tol \<le> 0\<close>, \<open>max_iter \<ge> 1\<close> and a
  field with at least one entry the convergence test never succeeds: the loop performs
  exactly \<open>max_iter\<close> sweeps and ends without the convergence message.
\<close>

theorem parameters_not_rejected:
  "(max_iter \<le> 0
      \<longrightarrow> iteration_loop h U dx max_iter tol
          = Inr \<lparr>heap = h, var_U = U, var_U_new = None, var_i = None, printed = None\<rparr>)
   \<and> (tol \<le> 0 \<and> 0 < max_iter \<and> U < length h \<and> is_ndarray (h ! U)
        \<and> 0 < fst (shape (h ! U)) \<and> 0 < snd (shape (h ! U))
      \<longrightarrow> (\<exists>s. iteration_loop h U dx max_iter tol = Inr s \<and> \<not> converged s
               \<and> (var_U s, heap s) = sweeps (nat max_iter) h U dx
               \<and> sweeps_performed s = nat max_iter))"
proof (intro conjI impI)
  assume "max_iter \<le> 0"
  then show "iteration_loop h U dx max_iter tol
          = Inr \<lparr>heap = h, var_U = U, var_U_new = None, var_i = None, printed = None\<rparr>"
    by (simp add: iteration_loop_def)
next
  let ?s0 = "\<lparr>heap = h, var_U = U, var_U_new = None, var_i = None, printed = None\<rparr>"
  assume a: "tol \<le> 0 \<and> 0 < max_iter \<and> U < length h \<and> is_ndarray (h ! U)
        \<and> 0 < fst (shape (h ! U)) \<and> 0 < snd (shape (h ! U))"
  then have "\<exists>s'. for_loop dx tol [0..<nat max_iter] ?s0 = Inr s' \<and> printed s' = printed ?s0
           \<and> (var_U s', heap s') = sweeps (length [0..<nat max_iter]) (heap ?s0) (var_U ?s0) dx
           \<and> ([0..<nat max_iter] \<noteq> [] \<longrightarrow> var_U_new s' = Some (var_U s')
                 \<and> var_i s' = Some (last [0..<nat max_iter]))"
    by (intro for_loop_never_converges) simp_all
  then obtain s where s: "for_loop dx tol [0..<nat max_iter] ?s0 = Inr s" "printed s = None"
    "(var_U s, heap s) = sweeps (nat max_iter) h U dx"
    "[0..<nat max_iter] \<noteq> [] \<longrightarrow> var_i s = Some (last [0..<nat max_iter])"
    by auto
  obtain m where m: "nat max_iter = Suc m" using a by (cases "nat max_iter") simp_all
  have "var_i s = Some m" using s(4) by (simp add: m)
  then have "sweeps_performed s = nat max_iter" by (simp add: sweeps_performed_def m)
  then show "\<exists>s. iteration_loop h U dx max_iter tol = Inr s \<and> \<not> converged s
               \<and> (var_U s, heap s) = sweeps (nat max_iter) h U dx
               \<and> sweeps_performed s = nat max_iter"
    using s(1,2,3) by (intro exI [of _ s]) (simp add: iteration_loop_def converged_def)
qed

theorem parameters_not_rejected_witness:
  "(0::int) \<le> 0
   \<and> iteration_loop [grid3] 0 (1 / 2) 0 (1 / 100000)
       = Inr \<lparr>heap = [grid3], var_U = 0, var_U_new = None, var_i = None, printed = None\<rparr>
   \<and> (0::real) \<le> 0 \<and> (0::int) < 2 \<and> 0 < length [grid3] \<and> is_ndarray ([grid3] ! 0)
   \<and> 0 < fst (shape ([grid3] ! 0)) \<and> 0 < snd (shape ([grid3] ! 0))
   \<and> (\<exists>s. iteration_loop [grid3] 0 (1 / 2) 2 0 = Inr s \<and> \<not> converged s
        \<and> (var_U s, heap s) = sweeps (nat 2) [grid3] 0 (1 / 2)
        \<and> sweeps_performed s = nat 2)"
proof -
  have arr: "is_ndarray ([grid3] ! 0)" by (simp add: is_ndarray_def grid3_def shape_def)
  have sh: "0 < fst (shape ([grid3] ! 0))" "0 < snd (shape ([grid3] ! 0))"
    by (simp_all add: grid3_def shape_def)
  have "iteration_loop [grid3] 0 (1 / 2) 0 (1 / 100000)
       = Inr \<lparr>heap = [grid3], var_U = 0, var_U_new = None, var_i = None, printed = None\<rparr>"
    using parameters_not_rejected [of 0 "[grid3]" 0 "1 / 2" "1 / 100000"] by simp
  moreover have "\<exists>s. iteration_loop [grid3] 0 (1 / 2) 2 0 = Inr s \<and> \<not> converged s
        \<and> (var_U s, heap s) = sweeps (nat 2) [grid3] 0 (1 / 2)
        \<and> sweeps_performed s = nat 2"
    using parameters_not_rejected [of 2 "[grid3]" 0 "1 / 2" 0] arr sh by simp
  ultimately show ?thesis using arr sh by simp
qed

text \<open>
  Claim C5 as stated says that a tolerance or an iteration cap that is not positive is
  rejected before any sweep. With \<open>max_iter = 0\<close> the loop returns the initial state, and
  with \<open>tol = 0\<close> it performs both sweeps and returns.
\<close>

theorem invalid_parameter_counterexample:
  "iteration_loop [grid3] 0 (1 / 2) 0 (1 / 100000)
     = Inr \<lparr>heap = [grid3], var_U = 0, var_U_new = None, var_i = None, printed = None\<rparr>
   \<and> iteration_loop [grid3] 0 (1 / 2) 2 0
     = Inr \<lparr>heap = [grid3, ones3, ones3], var_U = 2, var_U_new = Some 2, var_i = Some 1,
            printed = None\<rparr>"
  by (simp add: run_defs grid3_def ones3_def)

section \<open>Rounding to nearest\<close>

text \<open>
  The spacing is a power of two times the smallest subnormal, the scaled significand stays
  below \<open>2 ^ 53\<close>, multiples of a spacing with a short significand are left unchanged by
  rounding, and rounding is monotone.
\<close>

lemma halvings_upper: "y < 2 * 2 ^ halvings y"
proof (induction y rule: halvings.induct)
  case (1 y)
  show ?case
  proof (cases "y < 2")
    case True
    then show ?thesis by (simp add: halvings.simps [of y])
  next
    case False
    then have "y / 2 < 2 * 2 ^ halvings (y / 2)" by (rule "1.IH")
    then show ?thesis using False by (simp add: halvings.simps [of y])
  qed
qed

lemma halvings_lower: "1 \<le> y \<Longrightarrow> 2 ^ halvings y \<le> y"
proof (induction y rule: halvings.induct)
  case (1 y)
  show ?case
  proof (cases "y < 2")
    case True
    then show ?thesis using "1.prems" by (simp add: halvings.simps [of y])
  next
    case False
    then have "2 ^ halvings (y / 2) \<le> y / 2" by (intro "1.IH") simp_all
    then show ?thesis using False by (simp add: halvings.simps [of y])
  qed
qed

lemma halvings_pos: "0 < halvings y \<Longrightarrow> 2 \<le> y"
  by (cases "y < 2") (simp_all add: halvings.simps [of y])

lemma halvings_eq:
  assumes "2 ^ k \<le> y" and "y < 2 * 2 ^ k"
  shows "halvings y = k"
proof (rule ccontr)
  assume ne: "halvings y \<noteq> k"
  have y1: "1 \<le> y" using assms(1) one_le_power [of "2::real" k] by linarith
  show False
  proof (cases "halvings y < k")
    case True
    then have "Suc (halvings y) \<le> k" by simp
    then have "(2::real) ^ Suc (halvings y) \<le> 2 ^ k" by (intro power_increasing) simp_all
    then show False using halvings_upper [of y] assms(1) by simp
  next
    case False
    then have "Suc k \<le> halvings y" using ne by simp
    then have "(2::real) ^ Suc k \<le> 2 ^ halvings y" by (intro power_increasing) simp_all
    then show False using halvings_lower [OF y1] assms(2) by simp
  qed
qed

lemma halvings_small: "y < 2 \<Longrightarrow> halvings y = 0"
  by (simp add: halvings.simps [of y])

lemma halvings_mono:
  assumes "y \<le> z"
  shows "halvings y \<le> halvings z"
proof (rule ccontr)
  assume "\<not> halvings y \<le> halvings z"
  then have lt: "Suc (halvings z) \<le> halvings y" by simp
  then have "0 < halvings y" by simp
  then have "1 \<le> y" using halvings_pos [of y] by simp
  then have "2 ^ halvings y \<le> y" by (rule halvings_lower)
  moreover have "(2::real) ^ Suc (halvings z) \<le> 2 ^ halvings y"
    using lt by (intro power_increasing) simp_all
  ultimately show False using halvings_upper [of z] assms by simp
qed

lemma smallest_subnormal_pos: "0 < smallest_subnormal"
  by (simp add: smallest_subnormal_def)

lemma spacing_pos: "0 < spacing x"
  by (simp add: spacing_def smallest_subnormal_pos)

lemma spacing_mono: "\<bar>x\<bar> \<le> \<bar>y\<bar> \<Longrightarrow> spacing x \<le> spacing y"
  using smallest_subnormal_pos
  by (simp add: spacing_def divide_right_mono halvings_mono)

text \<open>The scaled significand is below \<open>2 ^ 53\<close> in magnitude.\<close>

lemma quotient_upper: "\<bar>x\<bar> / spacing x < 2 ^ 53"
proof -
  let ?t = smallest_subnormal
  let ?h = "halvings (\<bar>x\<bar> / (2 ^ 52 * ?t))"
  have t: "0 < ?t" by (rule smallest_subnormal_pos)
  have "\<bar>x\<bar> / (2 ^ 52 * ?t) < 2 * 2 ^ ?h" by (rule halvings_upper)
  then have "\<bar>x\<bar> < 2 * 2 ^ ?h * (2 ^ 52 * ?t)" using t by (simp add: divide_less_eq)
  then have "\<bar>x\<bar> < 2 ^ 53 * (2 ^ ?h * ?t)" by (simp add: mult.assoc mult.left_commute)
  then have "\<bar>x\<bar> / (2 ^ ?h * ?t) < 2 ^ 53" using t by (simp add: divide_less_eq)
  then show ?thesis by (simp add: spacing_def)
qed

lemma quotient_lower:
  assumes "spacing x \<noteq> smallest_subnormal"
  shows "2 ^ 52 \<le> \<bar>x\<bar> / spacing x"
proof -
  let ?t = smallest_subnormal
  let ?h = "halvings (\<bar>x\<bar> / (2 ^ 52 * ?t))"
  have t: "0 < ?t" by (rule smallest_subnormal_pos)
  have "0 < ?h" using assms by (cases "?h = 0") (simp_all add: spacing_def)
  then have "1 \<le> \<bar>x\<bar> / (2 ^ 52 * ?t)" using halvings_pos [of "\<bar>x\<bar> / (2 ^ 52 * ?t)"] by simp
  then have "2 ^ ?h \<le> \<bar>x\<bar> / (2 ^ 52 * ?t)" by (rule halvings_lower)
  then have "2 ^ ?h * (2 ^ 52 * ?t) \<le> \<bar>x\<bar>" using t by (simp add: le_divide_eq)
  then have "2 ^ 52 * (2 ^ ?h * ?t) \<le> \<bar>x\<bar>" by (simp add: mult.assoc mult.left_commute)
  then have "2 ^ 52 \<le> \<bar>x\<bar> / (2 ^ ?h * ?t)" using t by (simp add: le_divide_eq)
  then show ?thesis by (simp add: spacing_def)
qed

lemma round_half_even_of_int: "round_half_even (of_int n) = n"
  by (simp add: round_half_even_def)

lemma round_half_even_cases:
  "round_half_even y = \<lfloor>y\<rfloor> \<or> round_half_even y = \<lfloor>y\<rfloor> + 1"
  by (simp add: round_half_even_def Let_def)

lemma round_half_even_mono:
  assumes "x \<le> y"
  shows "round_half_even x \<le> round_half_even y"
proof (cases "\<lfloor>x\<rfloor> = \<lfloor>y\<rfloor>")
  case True
  then show ?thesis using assms by (auto simp: round_half_even_def Let_def)
next
  case False
  then have "\<lfloor>x\<rfloor> + 1 \<le> \<lfloor>y\<rfloor>" using floor_mono [OF assms] by simp
  moreover have "round_half_even x \<le> \<lfloor>x\<rfloor> + 1" using round_half_even_cases [of x] by auto
  moreover have "\<lfloor>y\<rfloor> \<le> round_half_even y" using round_half_even_cases [of y] by auto
  ultimately show ?thesis by simp
qed

lemma round_half_even_le: "y \<le> of_int n \<Longrightarrow> round_half_even y \<le> n"
  using round_half_even_mono [of y "of_int n"] by (simp add: round_half_even_of_int)

lemma round_half_even_ge: "of_int n \<le> y \<Longrightarrow> n \<le> round_half_even y"
  using round_half_even_mono [of "of_int n" y] by (simp add: round_half_even_of_int)

lemma round_half_even_near: "\<bar>of_int (round_half_even y) - y\<bar> \<le> 1 / 2"
proof -
  have "of_int \<lfloor>y\<rfloor> \<le> y" "y < of_int \<lfloor>y\<rfloor> + 1" by linarith+
  then show ?thesis by (auto simp: round_half_even_def Let_def)
qed

lemma round_half_even_unique:
  assumes "\<bar>of_int z - y\<bar> < 1 / 2"
  shows "round_half_even y = z"
proof -
  have "\<bar>(of_int (round_half_even y) :: real) - of_int z\<bar> < 1"
    using round_half_even_near [of y] assms by linarith
  then have "\<bar>round_half_even y - z\<bar> < 1"
    by (metis of_int_diff of_int_abs of_int_less_1_iff)
  then show ?thesis by simp
qed

lemma round_half_even_tie:
  assumes "\<bar>of_int z - y\<bar> = 1 / 2" and "even z"
  shows "round_half_even y = z"
proof (cases "y \<le> of_int z")
  case True
  then have y: "y = of_int (z - 1) + 1 / 2" using assms(1) by simp
  then have "\<lfloor>y\<rfloor> = z - 1" by (simp add: floor_unique)
  moreover have "odd (z - 1)" using assms(2) by simp
  ultimately show ?thesis using y by (simp add: round_half_even_def Let_def)
next
  case False
  then have y: "y = of_int z + 1 / 2" using assms(1) by simp
  then have "\<lfloor>y\<rfloor> = z" by (simp add: floor_unique)
  then show ?thesis using y assms(2) by (simp add: round_half_even_def Let_def)
qed

lemma twice_near: "\<bar>2 * round_half_even (of_int n / 2) - n\<bar> \<le> 1"
proof -
  have "\<bar>(of_int (round_half_even (of_int n / 2)) :: real) - of_int n / 2\<bar> \<le> 1 / 2"
    by (rule round_half_even_near)
  then have "\<bar>2 * (of_int (round_half_even (of_int n / 2)) :: real) - of_int n\<bar> \<le> 1"
    by linarith
  then have "\<bar>(of_int (2 * round_half_even (of_int n / 2) - n) :: real)\<bar> \<le> 1"
    by simp
  then show ?thesis by (metis of_int_abs of_int_le_1_iff)
qed

lemma four_times_near: "\<bar>4 * round_half_even (of_int n / 4) - n\<bar> \<le> 2"
proof -
  have "\<bar>(of_int (round_half_even (of_int n / 4)) :: real) - of_int n / 4\<bar> \<le> 1 / 2"
    by (rule round_half_even_near)
  then have "\<bar>4 * (of_int (round_half_even (of_int n / 4)) :: real) - of_int n\<bar> \<le> 2"
    by linarith
  then have "\<bar>(of_int (4 * round_half_even (of_int n / 4) - n) :: real)\<bar> \<le> of_int 2"
    by simp
  then show ?thesis by (metis of_int_abs of_int_le_iff)
qed

lemma twice_target:
  assumes "\<bar>d\<bar> \<le> 1"
  shows "2 * round_half_even (of_int (4 * k + d) / 2) = 4 * k"
proof -
  have diff: "of_int (2 * k) - of_int (4 * k + d) / 2 = - (of_int d / (2::real))"
    by (simp add: field_simps)
  have "round_half_even (of_int (4 * k + d) / 2) = 2 * k"
  proof (cases "d = 0")
    case True
    then show ?thesis by (intro round_half_even_unique) (simp only: diff, simp)
  next
    case False
    then have "\<bar>d\<bar> = 1" using assms by auto
    then have "\<bar>(of_int d :: real)\<bar> = 1" by (metis of_int_abs of_int_1)
    then show ?thesis by (intro round_half_even_tie) (simp_all only: diff, simp_all)
  qed
  then show ?thesis by simp
qed

lemma four_times_target:
  assumes "\<bar>d\<bar> \<le> 1 \<or> (\<bar>d\<bar> = 2 \<and> even k)"
  shows "4 * round_half_even (of_int (4 * k + d) / 4) = 4 * k"
proof -
  have diff: "of_int k - of_int (4 * k + d) / 4 = - (of_int d / (4::real))"
    by (simp add: field_simps)
  have "round_half_even (of_int (4 * k + d) / 4) = k"
  proof (cases "\<bar>d\<bar> \<le> 1")
    case True
    then have "\<bar>(of_int d :: real)\<bar> \<le> 1" by (metis of_int_abs of_int_le_1_iff)
    moreover have "\<bar>of_int k - of_int (4 * k + d) / (4::real)\<bar> = \<bar>of_int d\<bar> / 4"
      by (simp only: diff abs_minus_cancel abs_divide)
    ultimately have "\<bar>of_int k - of_int (4 * k + d) / (4::real)\<bar> < 1 / 2" by linarith
    then show ?thesis by (rule round_half_even_unique)
  next
    case False
    then have d: "\<bar>d\<bar> = 2" and k: "even k" using assms by auto
    have "\<bar>(of_int d :: real)\<bar> = 2" using d by (metis of_int_abs of_int_numeral)
    then have "\<bar>of_int k - of_int (4 * k + d) / (4::real)\<bar> = 1 / 2"
      by (simp only: diff)
    then show ?thesis using k by (rule round_half_even_tie)
  qed
  then show ?thesis by simp
qed

lemma shorten_four: "shorten (4 * k) = 4 * k"
  using twice_target [of 0 k] four_times_target [of 0 k] by (simp add: shorten_def)

lemma shorten_three_one:
  assumes "\<bar>k\<bar> < 2 ^ 53"
  shows "shorten (shorten (3 * k) + k) = 4 * k"
proof -
  define d where "d = shorten (3 * k) - 3 * k"
  have sum: "shorten (3 * k) + k = 4 * k + d" by (simp add: d_def)
  consider (exact) "\<bar>3 * k\<bar> < 2 ^ 53" | (two) "2 ^ 53 \<le> \<bar>3 * k\<bar>" "\<bar>3 * k\<bar> < 2 ^ 54"
    | (four) "2 ^ 54 \<le> \<bar>3 * k\<bar>" by linarith
  then have "shorten (4 * k + d) = 4 * k"
  proof cases
    case exact
    then have "d = 0" by (simp add: d_def shorten_def)
    then show ?thesis by (simp add: shorten_four)
  next
    case two
    then have d: "d = 2 * round_half_even (of_int (3 * k) / 2) - 3 * k"
      by (simp add: d_def shorten_def)
    then have near: "\<bar>d\<bar> \<le> 1" using twice_near [of "3 * k"] by simp
    have "(3::int) \<le> 2 ^ 53" by simp
    then have big: "2 ^ 53 \<le> \<bar>4 * k + d\<bar>" using two(1) near by linarith
    have a: "2 * round_half_even (of_int (4 * k + d) / 2) = 4 * k"
      using near by (rule twice_target)
    have b: "4 * round_half_even (of_int (4 * k + d) / 4) = 4 * k"
      using near by (intro four_times_target) simp
    have "\<not> \<bar>4 * k + d\<bar> < 2 ^ 53" using big by linarith
    then show ?thesis
      using a b by (simp add: shorten_def)
  next
    case four
    then have d: "d = 4 * round_half_even (of_int (3 * k) / 4) - 3 * k"
      by (simp add: d_def shorten_def)
    then have near: "\<bar>d\<bar> \<le> 2" using four_times_near [of "3 * k"] by simp
    have "(6::int) \<le> 2 ^ 54" by simp
    then have big: "2 ^ 54 \<le> \<bar>4 * k + d\<bar>" using four near by linarith
    have "even k" if "\<bar>d\<bar> = 2"
    proof -
      have "even (3 * k + d)" using d by simp
      moreover have "d = 2 \<or> d = - 2" using that by linarith
      then have "even d" by auto
      moreover note this
      ultimately have "even (3 * k)" by simp
      then show ?thesis by simp
    qed
    then have "\<bar>d\<bar> \<le> 1 \<or> (\<bar>d\<bar> = 2 \<and> even k)" using near by linarith
    then have b: "4 * round_half_even (of_int (4 * k + d) / 4) = 4 * k"
      by (rule four_times_target)
    have "(2::int) ^ 53 \<le> 2 ^ 54" by simp
    then have "\<not> \<bar>4 * k + d\<bar> < 2 ^ 53" "\<not> \<bar>4 * k + d\<bar> < 2 ^ 54"
      using big by linarith+
    then show ?thesis
      using b by (simp add: shorten_def)
  qed
  then show ?thesis by (simp only: sum)
qed

lemma halvings_le:
  assumes "y < 2 * 2 ^ j"
  shows "halvings y \<le> j"
proof (rule ccontr)
  assume "\<not> halvings y \<le> j"
  then have lt: "Suc j \<le> halvings y" by simp
  then have "1 \<le> y" using halvings_pos [of y] by simp
  then have "2 ^ halvings y \<le> y" by (rule halvings_lower)
  moreover have "(2::real) ^ Suc j \<le> 2 ^ halvings y"
    using lt by (intro power_increasing) simp_all
  ultimately show False using assms by simp
qed

lemma scaled_magnitude:
  "\<bar>of_int n * 2 ^ j * smallest_subnormal\<bar> / (2 ^ 52 * smallest_subnormal)
   = of_int \<bar>n\<bar> * 2 ^ j / 2 ^ 52"
  using smallest_subnormal_pos by (simp add: abs_mult)

lemma spacing_short:
  assumes "\<bar>n\<bar> < 2 ^ 53"
  shows "\<exists>i\<le>j. spacing (of_int n * 2 ^ j * smallest_subnormal) = 2 ^ i * smallest_subnormal"
proof -
  have "(of_int \<bar>n\<bar> :: real) < 2 ^ 53"
    using assms by (metis of_int_less_numeral_power_cancel_iff)
  then have "(of_int \<bar>n\<bar> :: real) * 2 ^ j < 2 ^ 53 * 2 ^ j" by simp
  then have "of_int \<bar>n\<bar> * 2 ^ j / (2 ^ 52 :: real) < 2 * 2 ^ j"
    by (simp add: divide_less_eq)
  then have "halvings (of_int \<bar>n\<bar> * 2 ^ j / (2 ^ 52 :: real)) \<le> j" by (rule halvings_le)
  then show ?thesis unfolding spacing_def scaled_magnitude by blast
qed

lemma spacing_long:
  assumes "2 ^ (52 + i) \<le> \<bar>n\<bar>" and "\<bar>n\<bar> < 2 ^ (53 + i)"
  shows "spacing (of_int n * 2 ^ j * smallest_subnormal) = 2 ^ (j + i) * smallest_subnormal"
proof -
  have lo: "(2::real) ^ (52 + i) \<le> of_int \<bar>n\<bar>"
    using assms(1) by (metis of_int_le_iff of_int_numeral of_int_power)
  have hi: "(of_int \<bar>n\<bar> :: real) < 2 ^ (53 + i)"
    using assms(2) by (metis of_int_less_iff of_int_numeral of_int_power)
  have "(2::real) ^ (j + i) * 2 ^ 52 = 2 ^ (52 + i) * 2 ^ j"
    by (simp only: power_add) simp
  also have "\<dots> \<le> of_int \<bar>n\<bar> * 2 ^ j" using lo by simp
  finally have a: "(2::real) ^ (j + i) \<le> of_int \<bar>n\<bar> * 2 ^ j / 2 ^ 52"
    by (simp add: le_divide_eq)
  have "(of_int \<bar>n\<bar> :: real) * 2 ^ j < 2 ^ (53 + i) * 2 ^ j" using hi by simp
  also have "\<dots> = 2 * 2 ^ (j + i) * 2 ^ 52"
    by (simp only: power_add) simp
  finally have b: "of_int \<bar>n\<bar> * 2 ^ j / 2 ^ 52 < (2::real) * 2 ^ (j + i)"
    by (simp add: divide_less_eq)
  have "halvings (of_int \<bar>n\<bar> * 2 ^ j / (2 ^ 52 :: real)) = j + i"
    using a b by (rule halvings_eq)
  then show ?thesis unfolding spacing_def scaled_magnitude by simp
qed

lemma round_nearest_short:
  assumes "\<bar>n\<bar> < 2 ^ 53"
  shows "round_nearest (of_int n * 2 ^ j * smallest_subnormal)
         = of_int n * 2 ^ j * smallest_subnormal"
proof -
  let ?t = smallest_subnormal
  let ?x = "of_int n * 2 ^ j * ?t"
  have t: "0 < ?t" by (rule smallest_subnormal_pos)
  obtain i where i: "i \<le> j" "spacing ?x = 2 ^ i * ?t"
    using spacing_short [OF assms, of j] by blast
  have pw: "(2::real) ^ j = 2 ^ (j - i) * 2 ^ i"
    using i(1) by (simp add: power_add [symmetric])
  have x: "?x = of_int (n * 2 ^ (j - i)) * spacing ?x"
    unfolding i(2) by (simp add: pw)
  then have q: "?x / spacing ?x = of_int (n * 2 ^ (j - i))"
    using spacing_pos [of ?x] by (metis nonzero_eq_divide_eq less_numeral_extra(3))
  have "round_nearest ?x = of_int (n * 2 ^ (j - i)) * spacing ?x"
    unfolding round_nearest_def q round_half_even_of_int ..
  also have "\<dots> = ?x" by (rule x [symmetric])
  finally show ?thesis .
qed

lemma round_nearest_long:
  assumes "2 ^ (52 + i) \<le> \<bar>n\<bar>" and "\<bar>n\<bar> < 2 ^ (53 + i)"
  shows "round_nearest (of_int n * 2 ^ j * smallest_subnormal)
         = of_int (2 ^ i * round_half_even (of_int n / 2 ^ i)) * 2 ^ j * smallest_subnormal"
proof -
  let ?t = smallest_subnormal
  let ?x = "of_int n * 2 ^ j * ?t"
  have t: "0 < ?t" by (rule smallest_subnormal_pos)
  have sp: "spacing ?x = 2 ^ (j + i) * ?t"
    using assms by (rule spacing_long)
  have q: "?x / spacing ?x = of_int n / 2 ^ i"
    using t by (simp add: sp power_add)
  show ?thesis
    unfolding round_nearest_def q by (simp add: sp power_add)
qed

lemma round_nearest_unit:
  assumes "\<bar>n\<bar> < 2 ^ 55"
  shows "round_nearest (of_int n * 2 ^ j * smallest_subnormal)
         = of_int (shorten n) * 2 ^ j * smallest_subnormal"
proof -
  consider (exact) "\<bar>n\<bar> < 2 ^ 53" | (two) "2 ^ 53 \<le> \<bar>n\<bar>" "\<bar>n\<bar> < 2 ^ 54"
    | (four) "2 ^ 54 \<le> \<bar>n\<bar>" by linarith
  then show ?thesis
  proof cases
    case exact
    then show ?thesis by (simp add: round_nearest_short shorten_def)
  next
    case two
    then have "2 ^ (52 + 1) \<le> \<bar>n\<bar>" "\<bar>n\<bar> < 2 ^ (53 + 1)" by simp_all
    then have "round_nearest (of_int n * 2 ^ j * smallest_subnormal)
         = of_int (2 ^ 1 * round_half_even (of_int n / 2 ^ 1)) * 2 ^ j * smallest_subnormal"
      by (rule round_nearest_long)
    moreover have "\<not> \<bar>n\<bar> < 2 ^ 53" using two(1) by linarith
    ultimately show ?thesis using two(2) by (simp add: shorten_def)
  next
    case four
    then have "2 ^ (52 + 2) \<le> \<bar>n\<bar>" "\<bar>n\<bar> < 2 ^ (53 + 2)" using assms by simp_all
    then have "round_nearest (of_int n * 2 ^ j * smallest_subnormal)
         = of_int (2 ^ 2 * round_half_even (of_int n / 2 ^ 2)) * 2 ^ j * smallest_subnormal"
      by (rule round_nearest_long)
    moreover have "(2::int) ^ 53 \<le> 2 ^ 54" by simp
    then have "\<not> \<bar>n\<bar> < 2 ^ 53" "\<not> \<bar>n\<bar> < 2 ^ 54" using four by linarith+
    ultimately show ?thesis by (simp add: shorten_def)
  qed
qed

lemma representable_form:
  assumes "round_nearest m = m"
  shows "\<exists>k j. m = of_int k * 2 ^ j * smallest_subnormal \<and> \<bar>k\<bar> < 2 ^ 53"
proof -
  let ?k = "round_half_even (m / spacing m)"
  let ?j = "halvings (\<bar>m\<bar> / (2 ^ 52 * smallest_subnormal))"
  have m: "m = of_int ?k * spacing m" using assms by (simp add: round_nearest_def)
  then have "m / spacing m = of_int ?k"
    using spacing_pos [of m] by (metis nonzero_eq_divide_eq less_numeral_extra(3))
  then have "\<bar>(of_int ?k :: real)\<bar> < 2 ^ 53"
    using quotient_upper [of m] spacing_pos [of m] by (simp add: abs_divide)
  then have "\<bar>?k\<bar> < 2 ^ 53"
    by (metis of_int_abs of_int_less_numeral_power_cancel_iff)
  moreover have "m = of_int ?k * 2 ^ ?j * smallest_subnormal"
    using m by (simp add: spacing_def mult.assoc)
  ultimately show ?thesis by blast
qed

lemma round_nearest_double:
  assumes "round_nearest m = m"
  shows "round_nearest (2 * m) = 2 * m" and "round_nearest (4 * m) = 4 * m"
proof -
  obtain k j where m: "m = of_int k * 2 ^ j * smallest_subnormal" and k: "\<bar>k\<bar> < 2 ^ 53"
    using representable_form [OF assms] by blast
  have two: "2 * m = of_int k * 2 ^ Suc j * smallest_subnormal" by (simp add: m)
  show "round_nearest (2 * m) = 2 * m"
    unfolding two using k by (rule round_nearest_short)
  have four: "4 * m = of_int k * 2 ^ Suc (Suc j) * smallest_subnormal" by (simp add: m)
  show "round_nearest (4 * m) = 4 * m"
    unfolding four using k by (rule round_nearest_short)
qed

lemma round_nearest_three_one:
  assumes "round_nearest m = m"
  shows "round_nearest (round_nearest (3 * m) + m) = 4 * m"
proof -
  obtain k j where m: "m = of_int k * 2 ^ j * smallest_subnormal" and k: "\<bar>k\<bar> < 2 ^ 53"
    using representable_form [OF assms] by blast
  have k3: "\<bar>3 * k\<bar> < 2 ^ 55" using k by simp
  have three: "3 * m = of_int (3 * k) * 2 ^ j * smallest_subnormal" by (simp add: m)
  have t: "round_nearest (3 * m) = of_int (shorten (3 * k)) * 2 ^ j * smallest_subnormal"
    unfolding three using k3 by (rule round_nearest_unit)
  have near: "\<bar>shorten (3 * k) - 3 * k\<bar> \<le> 2"
    using twice_near [of "3 * k"] four_times_near [of "3 * k"] by (simp add: shorten_def)
  have k4: "\<bar>shorten (3 * k) + k\<bar> < 2 ^ 55" using near k by simp
  have sum: "round_nearest (3 * m) + m
        = of_int (shorten (3 * k) + k) * 2 ^ j * smallest_subnormal"
    unfolding t by (simp add: m distrib_right)
  have "round_nearest (round_nearest (3 * m) + m)
             = of_int (shorten (shorten (3 * k) + k)) * 2 ^ j * smallest_subnormal"
    unfolding sum using k4 by (rule round_nearest_unit)
  also have "\<dots> = 4 * m" by (simp add: shorten_three_one [OF k] m)
  finally show ?thesis .
qed

lemma spacing_ge_smallest: "smallest_subnormal \<le> spacing x"
proof -
  have "(1::real) \<le> 2 ^ halvings (\<bar>x\<bar> / (2 ^ 52 * smallest_subnormal))" by simp
  then show ?thesis
    unfolding spacing_def using smallest_subnormal_pos
    by (metis mult_le_cancel_right_pos mult_1)
qed

lemma spacing_gap:
  assumes "spacing x < spacing y"
  shows "2 * spacing x \<le> spacing y"
proof -
  let ?hx = "halvings (\<bar>x\<bar> / (2 ^ 52 * smallest_subnormal))"
  let ?hy = "halvings (\<bar>y\<bar> / (2 ^ 52 * smallest_subnormal))"
  have "(2::real) ^ ?hx < 2 ^ ?hy"
    using assms smallest_subnormal_pos by (simp add: spacing_def)
  then have "?hx < ?hy" by simp
  then have "Suc ?hx \<le> ?hy" by simp
  then have "(2::real) ^ Suc ?hx \<le> 2 ^ ?hy" by (intro power_increasing) simp_all
  then have "2 * 2 ^ ?hx * smallest_subnormal \<le> 2 ^ ?hy * smallest_subnormal"
    using smallest_subnormal_pos by simp
  then show ?thesis by (simp add: spacing_def mult.assoc)
qed

lemma round_nearest_upper: "round_nearest x \<le> 2 ^ 53 * spacing x"
proof -
  have "x / spacing x \<le> \<bar>x\<bar> / spacing x"
    using spacing_pos [of x] by (simp add: divide_right_mono)
  then have "x / spacing x \<le> of_int (2 ^ 53)" using quotient_upper [of x] by simp
  then have "round_half_even (x / spacing x) \<le> 2 ^ 53" by (rule round_half_even_le)
  then have "(of_int (round_half_even (x / spacing x)) :: real) \<le> 2 ^ 53"
    by (metis of_int_le_numeral_power_cancel_iff)
  then show ?thesis
    unfolding round_nearest_def using spacing_pos [of x] by simp
qed

lemma round_nearest_lower: "- (2 ^ 53 * spacing x) \<le> round_nearest x"
proof -
  have "(- \<bar>x\<bar>) / spacing x \<le> x / spacing x"
    using spacing_pos [of x] by (intro divide_right_mono) simp_all
  then have "of_int (- (2 ^ 53)) \<le> x / spacing x" using quotient_upper [of x] by simp
  then have "- (2 ^ 53) \<le> round_half_even (x / spacing x)" by (rule round_half_even_ge)
  then have "- (2 ^ 53) \<le> (of_int (round_half_even (x / spacing x)) :: real)"
    by (metis of_int_le_iff of_int_minus of_int_numeral of_int_power)
  then have "- (2 ^ 53) * spacing x \<le> of_int (round_half_even (x / spacing x)) * spacing x"
    using spacing_pos [of x] by (intro mult_right_mono) simp_all
  then show ?thesis by (simp add: round_nearest_def)
qed

lemma round_nearest_normal_pos:
  assumes "0 < x" and "spacing x \<noteq> smallest_subnormal"
  shows "2 ^ 52 * spacing x \<le> round_nearest x"
proof -
  have "of_int (2 ^ 52) \<le> x / spacing x" using quotient_lower [OF assms(2)] assms(1) by simp
  then have "2 ^ 52 \<le> round_half_even (x / spacing x)" by (rule round_half_even_ge)
  then have "2 ^ 52 \<le> (of_int (round_half_even (x / spacing x)) :: real)"
    by (metis of_int_le_iff of_int_numeral of_int_power)
  then have "2 ^ 52 * spacing x \<le> of_int (round_half_even (x / spacing x)) * spacing x"
    using spacing_pos [of x] by (intro mult_right_mono) simp_all
  then show ?thesis by (simp add: round_nearest_def)
qed

lemma round_nearest_normal_neg:
  assumes "x < 0" and "spacing x \<noteq> smallest_subnormal"
  shows "round_nearest x \<le> - (2 ^ 52 * spacing x)"
proof -
  have "2 ^ 52 \<le> - x / spacing x" using quotient_lower [OF assms(2)] assms(1) by simp
  then have "x / spacing x \<le> of_int (- (2 ^ 52))" by simp
  then have "round_half_even (x / spacing x) \<le> - (2 ^ 52)" by (rule round_half_even_le)
  then have "(of_int (round_half_even (x / spacing x)) :: real) \<le> - (2 ^ 52)"
    by (metis of_int_le_iff of_int_minus of_int_numeral of_int_power)
  then have "of_int (round_half_even (x / spacing x)) * spacing x \<le> - (2 ^ 52) * spacing x"
    using spacing_pos [of x] by (intro mult_right_mono) simp_all
  then show ?thesis by (simp add: round_nearest_def)
qed

lemma round_nearest_mono:
  assumes "x \<le> y"
  shows "round_nearest x \<le> round_nearest y"
proof -
  consider (same) "spacing x = spacing y" | (up) "spacing x < spacing y"
    | (down) "spacing y < spacing x" by linarith
  then show ?thesis
  proof cases
    case same
    have "x / spacing y \<le> y / spacing y"
      using assms spacing_pos [of y] by (simp add: divide_right_mono)
    then have "round_half_even (x / spacing y) \<le> round_half_even (y / spacing y)"
      by (rule round_half_even_mono)
    then have "(of_int (round_half_even (x / spacing y)) :: real)
               \<le> of_int (round_half_even (y / spacing y))" by simp
    then show ?thesis
      unfolding round_nearest_def same using spacing_pos [of y]
      by (intro mult_right_mono) simp_all
  next
    case up
    have "\<not> \<bar>y\<bar> \<le> \<bar>x\<bar>" using up spacing_mono [of y x] by linarith
    then have y: "0 < y" using assms by linarith
    have "spacing y \<noteq> smallest_subnormal" using up spacing_ge_smallest [of x] by linarith
    then have big: "2 ^ 52 * spacing y \<le> round_nearest y"
      using y by (intro round_nearest_normal_pos)
    have gap: "2 * spacing x \<le> spacing y" using up by (rule spacing_gap)
    have "round_nearest x \<le> 2 ^ 53 * spacing x" by (rule round_nearest_upper)
    also have "\<dots> = 2 ^ 52 * (2 * spacing x)" by simp
    also have "\<dots> \<le> 2 ^ 52 * spacing y" using gap by (intro mult_left_mono) simp_all
    also note big
    finally show ?thesis .
  next
    case down
    have "\<not> \<bar>x\<bar> \<le> \<bar>y\<bar>" using down spacing_mono [of x y] by linarith
    then have x: "x < 0" using assms by linarith
    have "spacing x \<noteq> smallest_subnormal" using down spacing_ge_smallest [of y] by linarith
    then have "round_nearest x \<le> - (2 ^ 52 * spacing x)"
      using x by (intro round_nearest_normal_neg)
    also have "\<dots> \<le> - (2 ^ 52 * (2 * spacing y))"
      using spacing_gap [OF down] by simp
    also have "\<dots> = - (2 ^ 53 * spacing y)" by simp
    also have "\<dots> \<le> round_nearest y" by (rule round_nearest_lower)
    finally show ?thesis .
  qed
qed

lemma max_float_form: "max_float = of_int (2 ^ 53 - 1) * 2 ^ 2045 * smallest_subnormal"
  by (simp add: max_float_def smallest_subnormal_def)

lemma round_nearest_max_float:
  "round_nearest max_float = max_float" "round_nearest (- max_float) = - max_float"
proof -
  have "\<bar>2 ^ 53 - 1 :: int\<bar> < 2 ^ 53" by simp
  then show "round_nearest max_float = max_float"
    unfolding max_float_form by (rule round_nearest_short)
  have neg: "- max_float = of_int (- (2 ^ 53 - 1)) * 2 ^ 2045 * smallest_subnormal"
    by (simp add: max_float_form)
  have "\<bar>- (2 ^ 53 - 1) :: int\<bar> < 2 ^ 53" by simp
  then show "round_nearest (- max_float) = - max_float"
    unfolding neg by (rule round_nearest_short)
qed

lemma to_float64_finite:
  assumes "- max_float \<le> round_nearest x" and "round_nearest x \<le> max_float"
  shows "to_float64 x = Finite (round_nearest x)"
  using assms by (simp add: to_float64_def Let_def)

lemma mean_within:
  assumes lo: "round_nearest lo = lo" and hi: "round_nearest hi = hi"
    and blo: "4 * \<bar>lo\<bar> \<le> max_float" and bhi: "4 * \<bar>hi\<bar> \<le> max_float"
    and a: "lo \<le> a" "a \<le> hi" and b: "lo \<le> b" "b \<le> hi"
    and c: "lo \<le> c" "c \<le> hi" and d: "lo \<le> d" "d \<le> hi"
  shows "\<exists>v. float_div4 (float_add (float_add (float_add (Finite a) (Finite b)) (Finite c))
                 (Finite d)) = Finite v \<and> lo \<le> v \<and> v \<le> hi"
proof -
  define s1 where "s1 = round_nearest (a + b)"
  define s2 where "s2 = round_nearest (s1 + c)"
  define s3 where "s3 = round_nearest (s2 + d)"
  define v where "v = round_nearest (s3 / 4)"
  have s1: "2 * lo \<le> s1" "s1 \<le> 2 * hi"
    using round_nearest_mono [of "2 * lo" "a + b"] round_nearest_mono [of "a + b" "2 * hi"]
      a b round_nearest_double(1) [OF lo] round_nearest_double(1) [OF hi]
    by (simp_all add: s1_def)
  have f1: "float_add (Finite a) (Finite b) = Finite s1"
    using s1 blo bhi by (simp add: s1_def to_float64_finite)
  have s2: "round_nearest (3 * lo) \<le> s2" "s2 \<le> round_nearest (3 * hi)"
    using round_nearest_mono [of "3 * lo" "s1 + c"] round_nearest_mono [of "s1 + c" "3 * hi"]
      s1 c by (simp_all add: s2_def)
  have s3: "4 * lo \<le> s3" "s3 \<le> 4 * hi"
    using round_nearest_mono [of "round_nearest (3 * lo) + lo" "s2 + d"]
      round_nearest_mono [of "s2 + d" "round_nearest (3 * hi) + hi"]
      s2 d round_nearest_three_one [OF lo] round_nearest_three_one [OF hi]
    by (simp_all add: s3_def)
  have r2: "- max_float \<le> s2" "s2 \<le> max_float"
  proof -
    have "- max_float \<le> 3 * lo" "3 * hi \<le> max_float" using blo bhi by linarith+
    then have "- max_float \<le> round_nearest (3 * lo)" "round_nearest (3 * hi) \<le> max_float"
      using round_nearest_mono [of "- max_float" "3 * lo"]
        round_nearest_mono [of "3 * hi" max_float]
      by (simp_all add: round_nearest_max_float)
    then show "- max_float \<le> s2" "s2 \<le> max_float" using s2 by linarith+
  qed
  have f2: "float_add (Finite s1) (Finite c) = Finite s2"
    using r2 by (simp add: s2_def to_float64_finite)
  have f3: "float_add (Finite s2) (Finite d) = Finite s3"
    using s3 blo bhi by (simp add: s3_def to_float64_finite)
  have v: "lo \<le> v" "v \<le> hi"
    using round_nearest_mono [of lo "s3 / 4"] round_nearest_mono [of "s3 / 4" hi] s3 lo hi
    by (simp_all add: v_def)
  have f4: "float_div4 (Finite s3) = Finite v"
    using v blo bhi by (simp add: v_def to_float64_finite)
  show ?thesis using f1 f2 f3 f4 v by simp
qed

section \<open>A sweep in binary64\<close>

text \<open>
  As for real entries, a binary64 sweep leaves the updated contents at a fresh reference.
  If all entries are finite and lie between two binary64 values whose fourfold does not
  overflow, so do the entries after the sweep.
\<close>

lemma inner_store64:
  assumes "U < length h"
  shows "fold (\<lambda>j h'. setitem h' (length h) i j
                  (float_div4
                    (float_add
                      (float_add (float_add (getitem h' U (i + 1) j) (getitem h' U (i - 1) j))
                         (getitem h' U i (j + 1)))
                      (getitem h' U i (j - 1))))) js (h @ [B])
         = h @ [fold (\<lambda>j B. B[i := (B ! i)[j := mean64 (h ! U) i j]]) js B]"
  using assms
  by (induction js arbitrary: B) (simp_all add: setitem_fresh getitem_old mean64_def)

lemma outer_store64:
  assumes "U < length h"
  shows "fold (\<lambda>i h'. fold (\<lambda>j h'. setitem h' (length h) i j
                  (float_div4
                    (float_add
                      (float_add (float_add (getitem h' U (i + 1) j) (getitem h' U (i - 1) j))
                         (getitem h' U i (j + 1)))
                      (getitem h' U i (j - 1))))) js h') is (h @ [B])
         = h @ [fold (\<lambda>i B. fold (\<lambda>j B. B[i := (B ! i)[j := mean64 (h ! U) i j]]) js B) is B]"
proof (induction "is" arbitrary: B)
  case Nil
  show ?case by simp
next
  case (Cons i "is")
  show ?case
    by (simp only: fold_Cons comp_apply inner_store64 [OF assms] Cons.IH)
qed

lemma jacobi64_pure:
  assumes "is_ndarray A"
  shows "fold (\<lambda>i B. fold (\<lambda>j B. B[i := (B ! i)[j := mean64 A i j]]) [1..<snd (shape A) - 1] B)
           [1..<fst (shape A) - 1] A = jacobi64 A"
proof (rule nth_equalityI)
  show "length (fold (\<lambda>i B. fold (\<lambda>j B. B[i := (B ! i)[j := mean64 A i j]]) [1..<snd (shape A) - 1] B)
           [1..<fst (shape A) - 1] A) = length (jacobi64 A)"
    by (simp add: outer_length jacobi64_def shape_def)
next
  fix i
  assume "i < length (fold (\<lambda>i B. fold (\<lambda>j B. B[i := (B ! i)[j := mean64 A i j]]) [1..<snd (shape A) - 1] B)
           [1..<fst (shape A) - 1] A)"
  then have i: "i < length A" by (simp add: outer_length)
  then have row: "length (A ! i) = snd (shape A)" using assms by (rule is_ndarray_row[rotated])
  show "fold (\<lambda>i B. fold (\<lambda>j B. B[i := (B ! i)[j := mean64 A i j]]) [1..<snd (shape A) - 1] B)
           [1..<fst (shape A) - 1] A ! i = jacobi64 A ! i"
  proof (rule nth_equalityI)
    show "length (fold (\<lambda>i B. fold (\<lambda>j B. B[i := (B ! i)[j := mean64 A i j]]) [1..<snd (shape A) - 1] B)
           [1..<fst (shape A) - 1] A ! i) = length (jacobi64 A ! i)"
      using i row by (simp add: outer_row_length jacobi64_def shape_def)
  next
    fix j
    assume "j < length (fold (\<lambda>i B. fold (\<lambda>j B. B[i := (B ! i)[j := mean64 A i j]]) [1..<snd (shape A) - 1] B)
           [1..<fst (shape A) - 1] A ! i)"
    then have j: "j < length (A ! i)" by (simp add: outer_row_length)
    have fstsh: "fst (shape A) = length A" by (simp add: shape_def)
    show "fold (\<lambda>i B. fold (\<lambda>j B. B[i := (B ! i)[j := mean64 A i j]]) [1..<snd (shape A) - 1] B)
           [1..<fst (shape A) - 1] A ! i ! j = jacobi64 A ! i ! j"
      using i j row by (auto simp: outer_nth [OF i j] jacobi64_def interior_def fstsh)
  qed
qed

lemma finite_difference64_eq:
  assumes "U < length h" "is_ndarray (h ! U)"
  shows "finite_difference64 h U dx = (length h, h @ [jacobi64 (h ! U)])"
proof -
  obtain Nx Ny where sh: "shape (h ! U) = (Nx, Ny)" by (cases "shape (h ! U)")
  have "finite_difference64 h U dx
        = (length h, h @ [fold (\<lambda>i B. fold (\<lambda>j B. B[i := (B ! i)[j := mean64 (h ! U) i j]]) [1..<Ny - 1] B)
                             [1..<Nx - 1] (h ! U)])"
    by (simp only: finite_difference64_def sh np_copy_def Let_def prod.case outer_store64 [OF assms(1)])
  also have "\<dots> = (length h, h @ [jacobi64 (h ! U)])"
    using jacobi64_pure [OF assms(2)] by (simp add: sh)
  finally show ?thesis .
qed

lemma jacobi64_length: "length (jacobi64 A) = length A"
  by (simp add: jacobi64_def shape_def)

lemma jacobi64_row_length: "i < length A \<Longrightarrow> length (jacobi64 A ! i) = snd (shape A)"
  by (simp add: jacobi64_def shape_fst)

lemma jacobi64_shape: "shape (jacobi64 A) = shape A"
proof (cases "A = []")
  case True
  then show ?thesis by (simp add: jacobi64_def shape_def)
next
  case False
  then have pos: "0 < length A" by simp
  have "jacobi64 A \<noteq> []" using False jacobi64_length [of A] by auto
  moreover have "hd (jacobi64 A) = jacobi64 A ! 0"
    using \<open>jacobi64 A \<noteq> []\<close> by (simp add: hd_conv_nth)
  ultimately show ?thesis
    using jacobi64_row_length [OF pos] False by (simp add: shape_def jacobi64_length)
qed

lemma jacobi64_is_ndarray: "is_ndarray (jacobi64 A)"
  by (simp add: is_ndarray_def list_all_length jacobi64_shape jacobi64_length jacobi64_row_length)

lemma jacobi64_nth:
  assumes "i < fst (shape A)" "j < snd (shape A)"
  shows "jacobi64 A ! i ! j = (if interior (shape A) i j then mean64 A i j else A ! i ! j)"
  using assms by (simp add: jacobi64_def)

lemma jacobi64_funpow_shape: "shape ((jacobi64 ^^ n) A) = shape A"
  by (induction n) (simp_all add: jacobi64_shape)

lemma sweeps64_content:
  assumes "U < length h" and "is_ndarray (h ! U)" and "sweeps64 n h U dx = (r, h')"
  shows "r < length h' \<and> h' ! r = (jacobi64 ^^ n) (h ! U)"
  using assms
proof (induction n arbitrary: h U)
  case 0
  then show ?case by simp
next
  case (Suc n)
  let ?h1 = "h @ [jacobi64 (h ! U)]"
  have step: "sweeps64 n ?h1 (length h) dx = (r, h')"
    using Suc.prems(3) finite_difference64_eq [OF Suc.prems(1,2), of dx] by simp
  have "length h < length ?h1" by simp
  moreover have "is_ndarray (?h1 ! length h)" by (simp add: jacobi64_is_ndarray)
  ultimately have "r < length h' \<and> h' ! r = (jacobi64 ^^ n) (?h1 ! length h)"
    using step by (rule Suc.IH)
  then show ?case by (simp add: funpow_swap1)
qed

lemma jacobi64_finite_between:
  assumes "finite_between lo hi A"
    and "round_nearest lo = lo" and "round_nearest hi = hi"
    and "4 * \<bar>lo\<bar> \<le> max_float" and "4 * \<bar>hi\<bar> \<le> max_float"
  shows "finite_between lo hi (jacobi64 A)"
  unfolding finite_between_def jacobi64_shape
proof (intro allI impI)
  fix i j
  assume i: "i < fst (shape A)" and j: "j < snd (shape A)"
  show "\<exists>v. jacobi64 A ! i ! j = Finite v \<and> lo \<le> v \<and> v \<le> hi"
  proof (cases "interior (shape A) i j")
    case False
    then show ?thesis using assms(1) i j by (simp add: jacobi64_nth finite_between_def)
  next
    case True
    then have idx: "i + 1 < fst (shape A)" "i - 1 < fst (shape A)"
      "j + 1 < snd (shape A)" "j - 1 < snd (shape A)"
      using i j by (auto simp: interior_def)
    obtain a where a: "A ! (i + 1) ! j = Finite a" "lo \<le> a" "a \<le> hi"
      using assms(1) idx(1) j unfolding finite_between_def by blast
    obtain b where b: "A ! (i - 1) ! j = Finite b" "lo \<le> b" "b \<le> hi"
      using assms(1) idx(2) j unfolding finite_between_def by blast
    obtain c where c: "A ! i ! (j + 1) = Finite c" "lo \<le> c" "c \<le> hi"
      using assms(1) i idx(3) unfolding finite_between_def by blast
    obtain d where d: "A ! i ! (j - 1) = Finite d" "lo \<le> d" "d \<le> hi"
      using assms(1) i idx(4) unfolding finite_between_def by blast
    have "jacobi64 A ! i ! j = mean64 A i j" using True i j by (simp add: jacobi64_nth)
    also have "\<dots> = float_div4 (float_add (float_add (float_add (Finite a) (Finite b))
                          (Finite c)) (Finite d))"
      by (simp only: mean64_def a(1) b(1) c(1) d(1))
    finally show ?thesis
      using mean_within [OF assms(2-5) a(2,3) b(2,3) c(2,3) d(2,3)] by simp
  qed
qed

lemma jacobi64_funpow_finite_between:
  assumes "finite_between lo hi A"
    and "round_nearest lo = lo" and "round_nearest hi = hi"
    and "4 * \<bar>lo\<bar> \<le> max_float" and "4 * \<bar>hi\<bar> \<le> max_float"
  shows "finite_between lo hi ((jacobi64 ^^ n) A)"
  by (induction n) (simp_all add: assms jacobi64_finite_between)

lemma max_float_pos: "0 < max_float"
  by (simp add: max_float_def)

lemma max_float_overflow:
  "to_float64 (max_float + max_float) = PlusInf" "to_float64 (2 * max_float) = PlusInf"
proof -
  have "round_nearest (2 * max_float) = 2 * max_float"
    using round_nearest_max_float(1) by (rule round_nearest_double(1))
  then show "to_float64 (2 * max_float) = PlusInf"
    using max_float_pos by (simp add: to_float64_def)
  then show "to_float64 (max_float + max_float) = PlusInf" by simp
qed

lemma round_nearest_small_integers:
  "round_nearest 0 = 0" "round_nearest 1 = 1"
proof -
  have "round_nearest (of_int 0 * 2 ^ 0 * smallest_subnormal) = of_int 0 * 2 ^ 0 * smallest_subnormal"
    by (rule round_nearest_short) simp
  then show "round_nearest 0 = 0" by simp
  have one: "(1::real) = of_int 1 * 2 ^ 1074 * smallest_subnormal"
    by (simp add: smallest_subnormal_def)
  have "round_nearest (of_int 1 * 2 ^ 1074 * smallest_subnormal)
        = of_int 1 * 2 ^ 1074 * smallest_subnormal"
    by (rule round_nearest_short) simp
  then show "round_nearest 1 = 1" using one by simp
qed

lemma entry_in_concat:
  assumes "is_ndarray A" and "i < fst (shape A)" and "j < snd (shape A)"
  shows "A ! i ! j \<in> set (concat A)"
proof -
  have i: "i < length A" using assms(2) by (simp add: shape_fst)
  then have "j < length (A ! i)" using assms(1,3) by (simp add: is_ndarray_row)
  then show ?thesis using i by (auto intro!: bexI [of _ "A ! i"])
qed

section \<open>Maximum principle\<close>

text \<open>
  Claim C9, as the code has it. For every initial field whose entries are finite binary64
  values of magnitude at most a quarter of the largest finite value, and every number of
  sweeps, every interior value of the field after the sweeps is finite and lies between the
  least and the greatest entry of the initial field. The bound keeps the sum of four
  neighbours from overflowing; rounding alone never leaves the interval.
\<close>

theorem maximum_principle_float64:
  assumes "U < length h" and "is_ndarray (h ! U)" and "shape (h ! U) = (Nx, Ny)"
    and "list_all (list_all (\<lambda>x. is_finite_float64 x \<and> 4 * \<bar>float_value x\<bar> \<le> max_float))
           (h ! U)"
  shows "\<forall>n r h' i j. sweeps64 n h U dx = (r, h')
            \<and> 1 \<le> i \<and> i \<le> Nx - 2 \<and> 1 \<le> j \<and> j \<le> Ny - 2
          \<longrightarrow> float_le (Finite (Min (set (map float_value (concat (h ! U))))))
                (getitem h' r i j)
              \<and> float_le (getitem h' r i j)
                  (Finite (Max (set (map float_value (concat (h ! U))))))"
proof (intro allI impI)
  fix n r h' i j
  assume a: "sweeps64 n h U dx = (r, h')
            \<and> 1 \<le> i \<and> i \<le> Nx - 2 \<and> 1 \<le> j \<and> j \<le> Ny - 2"
  let ?A = "h ! U"
  let ?vals = "set (map float_value (concat ?A))"
  let ?lo = "Min ?vals" and ?hi = "Max ?vals"
  have ij: "i < fst (shape ?A)" "j < snd (shape ?A)" using a assms(3) by auto
  have small: "is_finite_float64 x \<and> 4 * \<bar>float_value x\<bar> \<le> max_float"
    if "x \<in> set (concat ?A)" for x
    using that assms(4) by (auto simp: list_all_iff)
  have finite_form: "x = Finite (float_value x) \<and> round_nearest (float_value x) = float_value x"
    if "x \<in> set (concat ?A)" for x
    using small [OF that] by (cases x) simp_all
  have "float_value (?A ! i ! j) \<in> ?vals"
    using entry_in_concat [OF assms(2) ij] by simp
  then have ne: "?vals \<noteq> {}" by (metis empty_iff)
  have fin: "finite ?vals" by simp
  have between: "finite_between ?lo ?hi ?A"
    unfolding finite_between_def
  proof (intro allI impI)
    fix i' j'
    assume "i' < fst (shape ?A)" "j' < snd (shape ?A)"
    then have mem: "?A ! i' ! j' \<in> set (concat ?A)"
      by (rule entry_in_concat [OF assms(2)])
    then have "float_value (?A ! i' ! j') \<in> ?vals" by simp
    then have "?lo \<le> float_value (?A ! i' ! j')" "float_value (?A ! i' ! j') \<le> ?hi"
      using fin by simp_all
    then show "\<exists>v. ?A ! i' ! j' = Finite v \<and> ?lo \<le> v \<and> v \<le> ?hi"
      using finite_form [OF mem] by blast
  qed
  have "?lo \<in> ?vals" using fin ne by (rule Min_in)
  then obtain x where x: "x \<in> set (concat ?A)" "?lo = float_value x" by auto
  have lo: "round_nearest ?lo = ?lo" "4 * \<bar>?lo\<bar> \<le> max_float"
    unfolding x(2) using finite_form [OF x(1)] small [OF x(1)] by blast+
  have "?hi \<in> ?vals" using fin ne by (rule Max_in)
  then obtain y where y: "y \<in> set (concat ?A)" "?hi = float_value y" by auto
  have hi: "round_nearest ?hi = ?hi" "4 * \<bar>?hi\<bar> \<le> max_float"
    unfolding y(2) using finite_form [OF y(1)] small [OF y(1)] by blast+
  have "finite_between ?lo ?hi ((jacobi64 ^^ n) ?A)"
    using between lo(1) hi(1) lo(2) hi(2) by (rule jacobi64_funpow_finite_between)
  then obtain v where v: "(jacobi64 ^^ n) ?A ! i ! j = Finite v" "?lo \<le> v" "v \<le> ?hi"
    using ij unfolding finite_between_def jacobi64_funpow_shape by blast
  have "h' ! r = (jacobi64 ^^ n) ?A"
    using sweeps64_content [OF assms(1,2)] a by blast
  then have "getitem h' r i j = Finite v" using v(1) by (simp add: getitem_def)
  then show "float_le (Finite ?lo) (getitem h' r i j) \<and> float_le (getitem h' r i j) (Finite ?hi)"
    using v(2,3) by simp
qed

theorem maximum_principle_float64_witness:
  "0 < length [grid3_64] \<and> is_ndarray ([grid3_64] ! 0) \<and> shape ([grid3_64] ! 0) = (3, 3)
   \<and> list_all (list_all (\<lambda>x. is_finite_float64 x \<and> 4 * \<bar>float_value x\<bar> \<le> max_float))
        ([grid3_64] ! 0)
   \<and> float_le (Finite 0)
        (getitem (snd (sweeps64 2 [grid3_64] 0 (Finite (1 / 2))))
           (fst (sweeps64 2 [grid3_64] 0 (Finite (1 / 2)))) 1 1)
   \<and> float_le
        (getitem (snd (sweeps64 2 [grid3_64] 0 (Finite (1 / 2))))
           (fst (sweeps64 2 [grid3_64] 0 (Finite (1 / 2)))) 1 1)
        (Finite 1)"
proof -
  have valid: "0 < length [grid3_64]" by simp
  have arr: "is_ndarray ([grid3_64] ! 0)" by (simp add: is_ndarray_def grid3_64_def shape_def)
  have sh: "shape ([grid3_64] ! 0) = (3, 3)" by (simp add: grid3_64_def shape_def)
  have "(4::real) \<le> max_float" by (simp add: max_float_def)
  then have small: "list_all (list_all (\<lambda>x. is_finite_float64 x \<and> 4 * \<bar>float_value x\<bar> \<le> max_float))
        ([grid3_64] ! 0)"
    by (simp add: grid3_64_def round_nearest_small_integers)
  have lo: "Min (set (map float_value (concat ([grid3_64] ! 0)))) = 0"
    by (simp add: grid3_64_def)
  have hi: "Max (set (map float_value (concat ([grid3_64] ! 0)))) = 1"
    by (simp add: grid3_64_def)
  have "float_le (Finite 0)
        (getitem (snd (sweeps64 2 [grid3_64] 0 (Finite (1 / 2))))
           (fst (sweeps64 2 [grid3_64] 0 (Finite (1 / 2)))) 1 1)
   \<and> float_le
        (getitem (snd (sweeps64 2 [grid3_64] 0 (Finite (1 / 2))))
           (fst (sweeps64 2 [grid3_64] 0 (Finite (1 / 2)))) 1 1)
        (Finite 1)"
    using maximum_principle_float64 [OF valid arr sh small, of "Finite (1 / 2)", unfolded lo hi]
    by simp
  then show ?thesis using valid arr sh small by simp
qed

text \<open>
  Claim C9 as stated is about every initial field, with no bound on its entries. When all
  entries of a 3 by 3 field equal the largest finite binary64 value, the sum of the first
  two neighbours overflows and the sweep stores an infinity in the interior, above the
  greatest initial entry.
\<close>

theorem maximum_principle_counterexample:
  "list_all (list_all is_finite_float64) huge3
   \<and> Max (set (map float_value (concat huge3))) = max_float
   \<and> finite_difference64 [huge3] 0 (Finite (1 / 2))
       = (1, [huge3, [[Finite max_float, Finite max_float, Finite max_float],
                      [Finite max_float, PlusInf, Finite max_float],
                      [Finite max_float, Finite max_float, Finite max_float]]])
   \<and> \<not> float_le PlusInf (Finite max_float)"
proof -
  have "list_all (list_all is_finite_float64) huge3"
    using max_float_pos by (simp add: huge3_def round_nearest_max_float)
  moreover have "Max (set (map float_value (concat huge3))) = max_float"
    by (simp add: huge3_def)
  moreover have "finite_difference64 [huge3] 0 (Finite (1 / 2))
       = (1, [huge3, [[Finite max_float, Finite max_float, Finite max_float],
                      [Finite max_float, PlusInf, Finite max_float],
                      [Finite max_float, Finite max_float, Finite max_float]]])"
    by (simp add: finite_difference64_def shape_def np_copy_def setitem_def getitem_def
          huge3_def max_float_overflow)
  ultimately show ?thesis by simp
qed

end
